theory Spec2Isabelle
  imports Complex_Main "HOL-Library.Monad_Syntax"
begin

section \<open>Axis layout solver\<close>

text \<open>
  The numbers of the source are JavaScript \<open>number\<close>s. In this section and in the
  sections on the vent holes and the shell they are modelled as reals, so rounding,
  \<open>NaN\<close> and \<open>Infinity\<close> are outside the model; the two solvers are given once more
  in binary64 below, for the claims that depend on rounding. \<open>Math.floor\<close> is
  \<open>\<lfloor>_\<rfloor>\<close>, a hole count is an \<open>int\<close>. A division by \<open>holeSpan + gap = 0\<close>
  gives \<open>Infinity\<close> or \<open>NaN\<close> in the source and \<open>0\<close> in HOL: theorems that depend on
  the quotient assume \<open>0 < holeSpan + minGap\<close>, which keeps every divisor positive.
\<close>

record axis_result =
  positions :: "real list"
  gapBetween :: real

text \<open>
  The \<open>while (chosenCount > maxAxisCount)\<close> loop of \<open>computeCenteredAxisPositions\<close>.
  The loop state is \<open>(chosenCount, chosenGap, trialGap)\<close>; the result is the pair
  \<open>(chosenCount, chosenGap)\<close> at exit.
\<close>

function centered_gap_loop ::
  "real \<Rightarrow> real \<Rightarrow> real \<Rightarrow> int \<Rightarrow> real \<Rightarrow> real \<Rightarrow> int \<times> real" where
  "centered_gap_loop usable holeSpan maxAxisCount chosenCount chosenGap trialGap =
     (if of_int chosenCount > maxAxisCount then
        (let trialGap' = trialGap + 1;
             count = max 1 \<lfloor>(usable + trialGap') / (holeSpan + trialGap')\<rfloor>
         in if trialGap' > 30 then (count, trialGap')
            else centered_gap_loop usable holeSpan maxAxisCount count trialGap' trialGap')
      else (chosenCount, chosenGap))"
  by pat_completeness auto
termination
  by (relation "measure (\<lambda>(u, h, m, c, g, t). nat \<lceil>30 - t\<rceil>)") (auto, linarith)

declare centered_gap_loop.simps [simp del]

definition computeCenteredAxisPositions ::
  "real \<Rightarrow> real \<Rightarrow> real \<Rightarrow> real \<Rightarrow> real option \<Rightarrow> axis_result" where
  "computeCenteredAxisPositions totalSpan holeSpan edgeClearance minGap maxAxisCount =
     (let usable = totalSpan - 2 * edgeClearance in
      if usable < holeSpan then \<lparr>positions = [], gapBetween = 0\<rparr>
      else
        let maxHolesWithMinGap = max 1 \<lfloor>(usable + minGap) / (holeSpan + minGap)\<rfloor>;
            (chosenCount, chosenGap) =
               (case maxAxisCount of
                  None \<Rightarrow> (maxHolesWithMinGap, minGap)
                | Some cap \<Rightarrow>
                    if of_int maxHolesWithMinGap > cap
                    then centered_gap_loop usable holeSpan cap maxHolesWithMinGap minGap minGap
                    else (maxHolesWithMinGap, minGap));
            baseUsed = of_int chosenCount * holeSpan + (of_int chosenCount - 1) * chosenGap;
            leftover = max 0 (usable - baseUsed);
            gapBetween = (if chosenCount > 1
                          then chosenGap + leftover / (of_int chosenCount - 1) else 0);
            start = - totalSpan / 2 + edgeClearance + holeSpan / 2;
            step = holeSpan + gapBetween
        in \<lparr>positions = map (\<lambda>i. start + real i * step) [0 ..< nat chosenCount],
            gapBetween = gapBetween\<rparr>)"

text \<open>The same for \<open>computeVerticalPositions\<close>, which the source writes out a second time.\<close>

function vertical_gap_loop ::
  "real \<Rightarrow> real \<Rightarrow> real \<Rightarrow> int \<Rightarrow> real \<Rightarrow> real \<Rightarrow> int \<times> real" where
  "vertical_gap_loop usable holeSpan maxAxisCount chosenCount chosenGap trialGap =
     (if of_int chosenCount > maxAxisCount then
        (let trialGap' = trialGap + 1;
             count = max 1 \<lfloor>(usable + trialGap') / (holeSpan + trialGap')\<rfloor>
         in if trialGap' > 30 then (count, trialGap')
            else vertical_gap_loop usable holeSpan maxAxisCount count trialGap' trialGap')
      else (chosenCount, chosenGap))"
  by pat_completeness auto
termination
  by (relation "measure (\<lambda>(u, h, m, c, g, t). nat \<lceil>30 - t\<rceil>)") (auto, linarith)

declare vertical_gap_loop.simps [simp del]

definition computeVerticalPositions ::
  "real \<Rightarrow> real \<Rightarrow> real \<Rightarrow> real \<Rightarrow> real option \<Rightarrow> axis_result" where
  "computeVerticalPositions totalSpan holeSpan edgeClearance minGap maxAxisCount =
     (let usable = totalSpan - 2 * edgeClearance in
      if usable < holeSpan then \<lparr>positions = [], gapBetween = 0\<rparr>
      else
        let maxHolesWithMinGap = max 1 \<lfloor>(usable + minGap) / (holeSpan + minGap)\<rfloor>;
            (chosenCount, chosenGap) =
               (case maxAxisCount of
                  None \<Rightarrow> (maxHolesWithMinGap, minGap)
                | Some cap \<Rightarrow>
                    if of_int maxHolesWithMinGap > cap
                    then vertical_gap_loop usable holeSpan cap maxHolesWithMinGap minGap minGap
                    else (maxHolesWithMinGap, minGap));
            baseUsed = of_int chosenCount * holeSpan + (of_int chosenCount - 1) * chosenGap;
            leftover = max 0 (usable - baseUsed);
            gapBetween = (if chosenCount > 1
                          then chosenGap + leftover / (of_int chosenCount - 1) else 0);
            start = edgeClearance + holeSpan / 2;
            step = holeSpan + gapBetween
        in \<lparr>positions = map (\<lambda>i. start + real i * step) [0 ..< nat chosenCount],
            gapBetween = gapBetween\<rparr>)"

section \<open>The geometry kernel\<close>

text \<open>
  The kernel (manifold-3d) is an external library. Its values are modelled as the terms
  that build them: a \<open>CrossSection\<close> is a polygon, rotated or mirrored, a \<open>Manifold\<close> is
  an extrusion, transformed and combined. Any call of the kernel may throw; which calls
  do is not decided by this repository, so the kernel is a parameter that says which
  constructions it accepts. \<open>None\<close> is a thrown exception (a rejected promise).
\<close>

type_synonym Vec2 = "real \<times> real"
type_synonym Vec3 = "real \<times> real \<times> real"

datatype CrossSection =
    Polygon "Vec2 list"
  | Rotate2 CrossSection real
  | Mirror2 CrossSection Vec2

datatype Manifold =
    Extrude CrossSection real
  | Translate Manifold Vec3
  | Rotate Manifold Vec3
  | Add Manifold Manifold
  | Subtract Manifold Manifold
  | TrimByPlane Manifold Vec3 real

record kernel =
  init_ok :: bool
  cs_ok :: "CrossSection \<Rightarrow> bool"
  solid_ok :: "Manifold \<Rightarrow> bool"

text \<open>
  In the construction of a solid only the failure of \<open>ManifoldModule.get\<close> matters; its
  initialization under concurrent calls is modelled on its own further down.
\<close>

definition ManifoldModule_get :: "kernel \<Rightarrow> unit option" where
  "ManifoldModule_get k = (if init_ok k then Some () else None)"

definition cs_make :: "kernel \<Rightarrow> CrossSection \<Rightarrow> CrossSection option" where
  "cs_make k c = (if cs_ok k c then Some c else None)"

definition m_make :: "kernel \<Rightarrow> Manifold \<Rightarrow> Manifold option" where
  "m_make k m = (if solid_ok k m then Some m else None)"

definition cs_new :: "kernel \<Rightarrow> Vec2 list \<Rightarrow> CrossSection option" where
  "cs_new k vertices = cs_make k (Polygon vertices)"

definition cs_rotate :: "kernel \<Rightarrow> CrossSection \<Rightarrow> real \<Rightarrow> CrossSection option" where
  "cs_rotate k c degrees = cs_make k (Rotate2 c degrees)"

definition cs_mirror :: "kernel \<Rightarrow> CrossSection \<Rightarrow> Vec2 \<Rightarrow> CrossSection option" where
  "cs_mirror k c ax = cs_make k (Mirror2 c ax)"

definition m_extrude :: "kernel \<Rightarrow> CrossSection \<Rightarrow> real \<Rightarrow> Manifold option" where
  "m_extrude k c h = m_make k (Extrude c h)"

definition m_translate :: "kernel \<Rightarrow> Manifold \<Rightarrow> Vec3 \<Rightarrow> Manifold option" where
  "m_translate k m v = m_make k (Translate m v)"

definition m_rotate :: "kernel \<Rightarrow> Manifold \<Rightarrow> Vec3 \<Rightarrow> Manifold option" where
  "m_rotate k m v = m_make k (Rotate m v)"

definition m_add :: "kernel \<Rightarrow> Manifold \<Rightarrow> Manifold \<Rightarrow> Manifold option" where
  "m_add k a b = m_make k (Add a b)"

definition m_subtract :: "kernel \<Rightarrow> Manifold \<Rightarrow> Manifold \<Rightarrow> Manifold option" where
  "m_subtract k a b = m_make k (Subtract a b)"

definition m_trimByPlane :: "kernel \<Rightarrow> Manifold \<Rightarrow> Vec3 \<Rightarrow> real \<Rightarrow> Manifold option" where
  "m_trimByPlane k m n off = m_make k (TrimByPlane m n off)"

section \<open>Cross sections and clips\<close>

definition CLIP_HEIGHT :: real where
  "CLIP_HEIGHT = 12"

definition N_POINTS :: nat where
  "N_POINTS = 10 + 2"

definition generateArc :: "Vec2 \<Rightarrow> real \<Rightarrow> Vec2 list" where
  "generateArc center radius =
     map (\<lambda>i. let angle = (real i * (pi / 2)) / (real N_POINTS - 1)
              in (fst center + radius * cos angle, snd center + radius * sin angle))
         [0 ..< N_POINTS]"

definition roundedRectangle :: "kernel \<Rightarrow> Vec2 \<Rightarrow> real \<Rightarrow> CrossSection option" where
  "roundedRectangle k size' cornerRadius = do {
     _ \<leftarrow> ManifoldModule_get k;
     let w = fst size';
     let h = snd size';
     let basicArc = generateArc (w / 2 - cornerRadius, h / 2 - cornerRadius) cornerRadius;
     let topRight = basicArc;
     let topLeft = rev (map (\<lambda>(x, y). (- x, y)) basicArc);
     let bottomLeft = map (\<lambda>(x, y). (- x, - y)) basicArc;
     let bottomRight = rev (map (\<lambda>(x, y). (x, - y)) basicArc);
     cs_new k (topRight @ topLeft @ bottomLeft @ bottomRight)
   }"

definition clipRCrossSection :: "kernel \<Rightarrow> CrossSection option" where
  "clipRCrossSection k = do {
     _ \<leftarrow> ManifoldModule_get k;
     c \<leftarrow> cs_new k [(0.95, 0), (2.45, 0), (2.45, 3.7), (3.05, 4.3),
                     (3.05, 5.9), (2.45, 6.5), (0.95, 6.5), (0.95, 0)];
     cs_rotate k c 180
   }"

definition clips :: "kernel \<Rightarrow> bool \<Rightarrow> (Manifold \<times> Manifold) option" where
  "clips k chamfer = do {
     r \<leftarrow> clipRCrossSection k;
     clipR \<leftarrow> m_extrude k r CLIP_HEIGHT;
     l \<leftarrow> clipRCrossSection k;
     lm \<leftarrow> cs_mirror k l (1, 0);
     clipL \<leftarrow> m_extrude k lm CLIP_HEIGHT;
     if \<not> chamfer then Some (clipR, clipL)
     else do {
       tr \<leftarrow> m_trimByPlane k clipR (0, 1, 1) 0;
       tl \<leftarrow> m_trimByPlane k clipL (0, 1, 1) 0;
       Some (tr, tl)
     }
   }"

section \<open>Vent holes\<close>

definition EDGE_CLEARANCE :: real where "EDGE_CLEARANCE = 3"
definition MIN_GAP :: real where "MIN_GAP = 4"
definition HOLE_LONG :: real where "HOLE_LONG = 7"
definition HOLE_SHORT :: real where "HOLE_SHORT = 3"
definition HOLE_SPAN_PLANAR :: real where
  "HOLE_SPAN_PLANAR = (HOLE_LONG + HOLE_SHORT) / sqrt 2"
definition MAX_AXIS_COUNT_WIDTH :: real where "MAX_AXIS_COUNT_WIDTH = 12"
definition MAX_AXIS_COUNT_DEPTH :: real where "MAX_AXIS_COUNT_DEPTH = 12"
definition MAX_AXIS_COUNT_HEIGHT :: real where "MAX_AXIS_COUNT_HEIGHT = 12"
definition BOTTOM_MARGIN :: real where "BOTTOM_MARGIN = 5"
definition RIB_WIDTH :: real where "RIB_WIDTH = 8"

text \<open>
  \<open>parts.reduce((acc, cur) => acc.add(cur))\<close> on a list with first element \<open>acc\<close>:
  the accumulator starts as the first element and each further element is added to it.
\<close>

fun reduce_add :: "kernel \<Rightarrow> Manifold \<Rightarrow> Manifold list \<Rightarrow> Manifold option" where
  "reduce_add k acc [] = Some acc"
| "reduce_add k acc (cur # rest) = do { a \<leftarrow> m_add k acc cur; reduce_add k a rest }"

text \<open>
  \<open>unionAll\<close> returns \<open>undefined\<close> (the inner \<open>None\<close>) on the empty list. Its reducer
  \<open>acc ? acc.add(cur) : cur\<close> always takes the first branch, an object being truthy.
\<close>

definition unionAll :: "kernel \<Rightarrow> Manifold list \<Rightarrow> Manifold option option" where
  "unionAll k parts =
     (case parts of [] \<Rightarrow> Some None
      | p # rest \<Rightarrow> map_option Some (reduce_add k p rest))"

definition createVentHoles ::
  "kernel \<Rightarrow> real \<Rightarrow> real \<Rightarrow> real \<Rightarrow> real \<Rightarrow> real \<Rightarrow> real \<Rightarrow> Manifold option" where
  "createVentHoles k height width depth wall bottom radius = do {
     _ \<leftarrow> ManifoldModule_get k;
     rect \<leftarrow> cs_new k [(- HOLE_LONG / 2, - HOLE_SHORT / 2), (HOLE_LONG / 2, - HOLE_SHORT / 2),
                        (HOLE_LONG / 2, HOLE_SHORT / 2), (- HOLE_LONG / 2, HOLE_SHORT / 2)];
     hole2D \<leftarrow> cs_rotate k rect 45;
     let xPositionsFront = positions (computeCenteredAxisPositions
           width HOLE_SPAN_PLANAR EDGE_CLEARANCE MIN_GAP (Some MAX_AXIS_COUNT_WIDTH));
     let yPositionsSide = positions (computeCenteredAxisPositions
           depth HOLE_SPAN_PLANAR EDGE_CLEARANCE MIN_GAP (Some MAX_AXIS_COUNT_DEPTH));
     let zPositions = positions (computeVerticalPositions
           height HOLE_SPAN_PLANAR EDGE_CLEARANCE MIN_GAP (Some MAX_AXIS_COUNT_HEIGHT));
     wallPrism \<leftarrow> m_extrude k hole2D (wall + 3);
     bottomPrism \<leftarrow> m_extrude k hole2D (bottom + 0.8);
     leftPrism \<leftarrow> m_rotate k wallPrism (0, 90, 0);
     rightPrism \<leftarrow> m_rotate k wallPrism (0, - 90, 0);
     frontPrism \<leftarrow> m_rotate k wallPrism (90, 0, 0);
     leftHoles \<leftarrow> those (concat (map (\<lambda>y. map (\<lambda>z.
           m_translate k leftPrism (- width / 2 - 1, y, z)) zPositions) yPositionsSide));
     rightHoles \<leftarrow> those (concat (map (\<lambda>y. map (\<lambda>z.
           m_translate k rightPrism (width / 2 + 1, y, z)) zPositions) yPositionsSide));
     frontHoles \<leftarrow> those (concat (map (\<lambda>x. map (\<lambda>z.
           m_translate k frontPrism (x, depth / 2 + 1, z)) zPositions) xPositionsFront));
     let innerRadiusForBottom = max 0 (radius - wall);
     let holeWidth = max 0 (width - 2 * (wall + BOTTOM_MARGIN));
     let holeDepth = max 0 (depth - 2 * (wall + BOTTOM_MARGIN));
     bottomUnion \<leftarrow>
       (if holeWidth > 0 \<and> holeDepth > 0 then do {
          bottom2D \<leftarrow> roundedRectangle k (holeWidth, holeDepth)
                        (max 0 (innerRadiusForBottom - BOTTOM_MARGIN));
          fullBottomHole \<leftarrow> m_extrude k bottom2D (bottom + 0.8);
          rib2D \<leftarrow> cs_new k [(- RIB_WIDTH / 2, - holeDepth / 2), (RIB_WIDTH / 2, - holeDepth / 2),
                             (RIB_WIDTH / 2, holeDepth / 2), (- RIB_WIDTH / 2, holeDepth / 2)];
          ribPrism \<leftarrow> m_extrude k rib2D (bottom + 0.8);
          cut \<leftarrow> m_subtract k fullBottomHole ribPrism;
          Some (Some cut)
        } else Some None);
     leftUnion \<leftarrow> unionAll k leftHoles;
     rightUnion \<leftarrow> unionAll k rightHoles;
     frontUnion \<leftarrow> unionAll k frontHoles;
     let unions = List.map_filter id [leftUnion, rightUnion, frontUnion, bottomUnion];
     (case unions of
        [] \<Rightarrow> m_translate k bottomPrism (0, 0, - 99999)
      | u # rest \<Rightarrow> reduce_add k u rest)
   }"

section \<open>The shell\<close>

datatype console = ConsoleLog string | ConsoleWarn string

text \<open>The part of \<open>base\<close> before its \<open>try\<close>: the outer extrusion minus the inner cavity.\<close>

definition base_shell ::
  "kernel \<Rightarrow> real \<Rightarrow> real \<Rightarrow> real \<Rightarrow> real \<Rightarrow> real \<Rightarrow> real \<Rightarrow> Manifold option" where
  "base_shell k height width depth radius wall bottom = do {
     let innerRadius = max 0 (radius - wall);
     outer2D \<leftarrow> roundedRectangle k (width, depth) radius;
     outer \<leftarrow> m_extrude k outer2D height;
     inner2D \<leftarrow> roundedRectangle k (width - 2 * wall, depth - 2 * wall) innerRadius;
     inner \<leftarrow> m_extrude k inner2D (height - bottom);
     innerNeg \<leftarrow> m_translate k inner (0, 0, bottom);
     m_subtract k outer innerNeg
   }"

text \<open>
  \<open>base\<close> returns what it wrote to the console and its result; a \<open>None\<close> result is an
  exception that leaves \<open>base\<close>. The \<open>try\<close> block holds the call of \<open>createVentHoles\<close> and
  the subtraction of its result.
\<close>

definition base ::
  "kernel \<Rightarrow> real \<Rightarrow> real \<Rightarrow> real \<Rightarrow> real \<Rightarrow> real \<Rightarrow> real \<Rightarrow> console list \<times> Manifold option" where
  "base k height width depth radius wall bottom =
     (case base_shell k height width depth radius wall bottom of
        None \<Rightarrow> ([], None)
      | Some result \<Rightarrow>
          (case do { holeUnion \<leftarrow> createVentHoles k height width depth wall bottom radius;
                     m_subtract k result holeUnion } of
             Some result' \<Rightarrow>
               ([ConsoleLog ''Vent holes subtracted successfully (single union)''], Some result')
           | None \<Rightarrow> ([ConsoleWarn ''Failed to create vent holes:''], Some result)))"

section \<open>Binary64 arithmetic\<close>

text \<open>
  Where a claim depends on the rounding of the source's numbers, the arithmetic is
  modelled in binary64: a result is rounded to the nearest number with a significand of
  53 bits, a tie to the one with an even significand. \<open>rne\<close> rounds to the nearest
  integer, a tie to the even one; \<open>fl\<close> rounds to binary64. The exponent range is not
  bounded: a result of magnitude \<open>2^1024\<close> or more (\<open>Infinity\<close> in the source) or below
  \<open>2^-1022\<close> (a subnormal number) is outside the model, as are \<open>NaN\<close> and a division
  by zero.
\<close>

definition rne :: "real \<Rightarrow> int" where
  "rne x = (let f = \<lfloor>x\<rfloor> in
             if x - of_int f < 1 / 2 then f
             else if 1 / 2 < x - of_int f then f + 1
             else if even f then f else f + 1)"

definition fl :: "real \<Rightarrow> real" where
  "fl x = (if x = 0 then 0
           else let q = 2 powr (of_int \<lfloor>log 2 \<bar>x\<bar>\<rfloor> - 52) in of_int (rne (x / q)) * q)"

definition fadd :: "real \<Rightarrow> real \<Rightarrow> real" where
  "fadd a b = fl (a + b)"

definition fsub :: "real \<Rightarrow> real \<Rightarrow> real" where
  "fsub a b = fl (a - b)"

definition fmul :: "real \<Rightarrow> real \<Rightarrow> real" where
  "fmul a b = fl (a * b)"

definition fdiv :: "real \<Rightarrow> real \<Rightarrow> real" where
  "fdiv a b = fl (a / b)"

section \<open>The axis layout solver in binary64\<close>

text \<open>
  The two solvers once more, every operation rounded. The gap loop need not end in
  binary64 (\<open>trialGap + 1\<close> is \<open>trialGap\<close> from \<open>2^53\<close> on), so its result is an option
  and \<open>None\<close> is a loop that does not end. \<open>Math.floor\<close> and \<open>Math.max\<close> are exact, a
  count is an integer.
\<close>

partial_function (option) centered_gap_loop64 ::
  "real \<Rightarrow> real \<Rightarrow> real \<Rightarrow> int \<Rightarrow> real \<Rightarrow> real \<Rightarrow> (int \<times> real) option" where
  "centered_gap_loop64 usable holeSpan maxAxisCount chosenCount chosenGap trialGap =
     (if of_int chosenCount > maxAxisCount then
        (if fadd trialGap 1 > 30
         then Some (max 1 \<lfloor>fdiv (fadd usable (fadd trialGap 1)) (fadd holeSpan (fadd trialGap 1))\<rfloor>,
                    fadd trialGap 1)
         else centered_gap_loop64 usable holeSpan maxAxisCount
                (max 1 \<lfloor>fdiv (fadd usable (fadd trialGap 1)) (fadd holeSpan (fadd trialGap 1))\<rfloor>)
                (fadd trialGap 1) (fadd trialGap 1))
      else Some (chosenCount, chosenGap))"

definition computeCenteredAxisPositions64 ::
  "real \<Rightarrow> real \<Rightarrow> real \<Rightarrow> real \<Rightarrow> real option \<Rightarrow> axis_result option" where
  "computeCenteredAxisPositions64 totalSpan holeSpan edgeClearance minGap maxAxisCount =
     (let usable = fsub totalSpan (fmul 2 edgeClearance) in
      if usable < holeSpan then Some \<lparr>positions = [], gapBetween = 0\<rparr>
      else
        let maxHolesWithMinGap = max 1 \<lfloor>fdiv (fadd usable minGap) (fadd holeSpan minGap)\<rfloor> in
        case (case maxAxisCount of
                None \<Rightarrow> Some (maxHolesWithMinGap, minGap)
              | Some cap \<Rightarrow>
                  if of_int maxHolesWithMinGap > cap
                  then centered_gap_loop64 usable holeSpan cap maxHolesWithMinGap minGap minGap
                  else Some (maxHolesWithMinGap, minGap)) of
          None \<Rightarrow> None
        | Some (chosenCount, chosenGap) \<Rightarrow>
            let baseUsed = fadd (fmul (of_int chosenCount) holeSpan)
                                (fmul (fsub (of_int chosenCount) 1) chosenGap);
                leftover = max 0 (fsub usable baseUsed);
                gapBetween = (if chosenCount > 1
                              then fadd chosenGap (fdiv leftover (fsub (of_int chosenCount) 1))
                              else 0);
                start = fadd (fadd (fdiv (- totalSpan) 2) edgeClearance) (fdiv holeSpan 2);
                step = fadd holeSpan gapBetween
            in Some \<lparr>positions = map (\<lambda>i. fadd start (fmul (real i) step)) [0 ..< nat chosenCount],
                      gapBetween = gapBetween\<rparr>)"

partial_function (option) vertical_gap_loop64 ::
  "real \<Rightarrow> real \<Rightarrow> real \<Rightarrow> int \<Rightarrow> real \<Rightarrow> real \<Rightarrow> (int \<times> real) option" where
  "vertical_gap_loop64 usable holeSpan maxAxisCount chosenCount chosenGap trialGap =
     (if of_int chosenCount > maxAxisCount then
        (if fadd trialGap 1 > 30
         then Some (max 1 \<lfloor>fdiv (fadd usable (fadd trialGap 1)) (fadd holeSpan (fadd trialGap 1))\<rfloor>,
                    fadd trialGap 1)
         else vertical_gap_loop64 usable holeSpan maxAxisCount
                (max 1 \<lfloor>fdiv (fadd usable (fadd trialGap 1)) (fadd holeSpan (fadd trialGap 1))\<rfloor>)
                (fadd trialGap 1) (fadd trialGap 1))
      else Some (chosenCount, chosenGap))"

definition computeVerticalPositions64 ::
  "real \<Rightarrow> real \<Rightarrow> real \<Rightarrow> real \<Rightarrow> real option \<Rightarrow> axis_result option" where
  "computeVerticalPositions64 totalSpan holeSpan edgeClearance minGap maxAxisCount =
     (let usable = fsub totalSpan (fmul 2 edgeClearance) in
      if usable < holeSpan then Some \<lparr>positions = [], gapBetween = 0\<rparr>
      else
        let maxHolesWithMinGap = max 1 \<lfloor>fdiv (fadd usable minGap) (fadd holeSpan minGap)\<rfloor> in
        case (case maxAxisCount of
                None \<Rightarrow> Some (maxHolesWithMinGap, minGap)
              | Some cap \<Rightarrow>
                  if of_int maxHolesWithMinGap > cap
                  then vertical_gap_loop64 usable holeSpan cap maxHolesWithMinGap minGap minGap
                  else Some (maxHolesWithMinGap, minGap)) of
          None \<Rightarrow> None
        | Some (chosenCount, chosenGap) \<Rightarrow>
            let baseUsed = fadd (fmul (of_int chosenCount) holeSpan)
                                (fmul (fsub (of_int chosenCount) 1) chosenGap);
                leftover = max 0 (fsub usable baseUsed);
                gapBetween = (if chosenCount > 1
                              then fadd chosenGap (fdiv leftover (fsub (of_int chosenCount) 1))
                              else 0);
                start = fadd edgeClearance (fdiv holeSpan 2);
                step = fadd holeSpan gapBetween
            in Some \<lparr>positions = map (\<lambda>i. fadd start (fmul (real i) step)) [0 ..< nat chosenCount],
                      gapBetween = gapBetween\<rparr>)"

text \<open>
  \<open>Math.SQRT2\<close> is the binary64 number nearest to the square root of 2, and
  \<open>HOLE_SPAN_PLANAR\<close> the quotient the source computes from it.
\<close>

definition SQRT2 :: real where
  "SQRT2 = fl (sqrt 2)"

definition HOLE_SPAN_PLANAR64 :: real where
  "HOLE_SPAN_PLANAR64 = fdiv (fadd HOLE_LONG HOLE_SHORT) SQRT2"

section \<open>The box with clips\<close>

text \<open>The clip grid of \<open>box\<close> is computed in binary64.\<close>

definition padding :: real where "padding = 5"
definition gw :: real where "gw = 40"
definition gh :: real where "gh = 40"

definition box_W :: "real \<Rightarrow> real \<Rightarrow> real" where
  "box_W width radius = fsub (fsub width (fmul 2 radius)) (fmul 2 padding)"

definition box_N :: "real \<Rightarrow> real \<Rightarrow> int" where
  "box_N width radius = \<lfloor>fadd (fdiv (box_W width radius) gw) 1\<rfloor>"

definition box_M :: "real \<Rightarrow> real \<Rightarrow> real" where
  "box_M width radius = fsub (of_int (box_N width radius)) 1"

definition box_dx :: "real \<Rightarrow> real \<Rightarrow> real" where
  "box_dx width radius = fmul (fdiv (fmul (- 1) (box_M width radius)) 2) gw"

definition box_H :: "real \<Rightarrow> real" where
  "box_H height = fsub height CLIP_HEIGHT"

definition box_NV :: "real \<Rightarrow> int" where
  "box_NV height = \<lfloor>fadd (fdiv (box_H height) gh) 1\<rfloor>"

text \<open>
  The two nested \<open>for\<close> loops of \<open>box\<close>, over the cells \<open>(i, j)\<close> in the order the loops
  visit them. \<open>clips\<close> returns \<open>[clipR, clipL]\<close> and \<open>box\<close> binds the pair to
  \<open>[clipL, clipR]\<close>, as the source does.
\<close>

fun place_clips ::
  "kernel \<Rightarrow> real \<Rightarrow> real \<Rightarrow> (nat \<times> nat) list \<Rightarrow> Manifold \<Rightarrow> Manifold option" where
  "place_clips k dx depth [] res = Some res"
| "place_clips k dx depth ((i, j) # cells) res = do {
     let chamfer = j > 0;
     (clipL, clipR) \<leftarrow> clips k chamfer;
     tl \<leftarrow> m_translate k clipL (fadd (fmul (real i) gw) dx, fdiv (- depth) 2, fmul (real j) gh);
     res1 \<leftarrow> m_add k res tl;
     tr \<leftarrow> m_translate k clipR (fadd (fmul (real i) gw) dx, fdiv (- depth) 2, fmul (real j) gh);
     res2 \<leftarrow> m_add k res1 tr;
     place_clips k dx depth cells res2
   }"

definition clip_cells :: "int \<Rightarrow> int \<Rightarrow> (nat \<times> nat) list" where
  "clip_cells N NV = concat (map (\<lambda>i. map (\<lambda>j. (i, j)) [0 ..< nat NV]) [0 ..< nat N])"

definition box ::
  "kernel \<Rightarrow> real \<Rightarrow> real \<Rightarrow> real \<Rightarrow> real \<Rightarrow> real \<Rightarrow> real \<Rightarrow> console list \<times> Manifold option" where
  "box k height width depth radius wall bottom =
     (case base k height width depth radius wall bottom of
        (out, None) \<Rightarrow> (out, None)
      | (out, Some res) \<Rightarrow>
          (out, place_clips k (box_dx width radius) depth
                  (clip_cells (box_N width radius) (box_NV height)) res))"

section \<open>The kernel singleton\<close>

text \<open>
  \<open>ManifoldModule.get\<close> is an async function: a call runs until its next \<open>await\<close>, and
  other calls may run in between. A call is at its start, waiting for \<open>init\<close> (the call
  of \<open>init\<close> it made is numbered), waiting for \<open>setup\<close>, or has returned the instance
  it read from the static field. \<open>get_step i\<close> runs caller \<open>i\<close> up to its next \<open>await\<close>;
  a schedule is the list of callers in the order in which they are resumed.
\<close>

datatype get_pc = AtStart | AwaitingInit nat | AwaitingSetup | Returned nat

record module_state =
  wasm :: "nat option"
  init_calls :: nat
  setup_calls :: nat
  callers :: "get_pc list"

definition get_step :: "nat \<Rightarrow> module_state \<Rightarrow> module_state" where
  "get_step i s =
     (if i < length (callers s) then
        (case callers s ! i of
           AtStart \<Rightarrow>
             (case wasm s of
                Some w \<Rightarrow> s\<lparr>callers := (callers s)[i := Returned w]\<rparr>
              | None \<Rightarrow> s\<lparr>init_calls := init_calls s + 1,
                          callers := (callers s)[i := AwaitingInit (init_calls s + 1)]\<rparr>)
         | AwaitingInit inst \<Rightarrow>
             s\<lparr>wasm := Some inst, setup_calls := setup_calls s + 1,
               callers := (callers s)[i := AwaitingSetup]\<rparr>
         | AwaitingSetup \<Rightarrow>
             (case wasm s of
                Some w \<Rightarrow> s\<lparr>callers := (callers s)[i := Returned w]\<rparr>
              | None \<Rightarrow> s)
         | Returned w \<Rightarrow> s)
      else s)"

definition run_schedule :: "nat list \<Rightarrow> module_state \<Rightarrow> module_state" where
  "run_schedule sched s = fold get_step sched s"

definition fresh_module :: "nat \<Rightarrow> module_state" where
  "fresh_module n = \<lparr>wasm = None, init_calls = 0, setup_calls = 0, callers = replicate n AtStart\<rparr>"

section \<open>Observations on kernel values\<close>

text \<open>
  A kernel that accepts every construction, and two fixed kernels: one that accepts
  everything, one that rejects every rotation of a cross section (the first kernel call
  that only \<open>createVentHoles\<close> makes).
\<close>

definition accepting :: "kernel \<Rightarrow> bool" where
  "accepting k \<longleftrightarrow> init_ok k \<and> (\<forall>c. cs_ok k c) \<and> (\<forall>m. solid_ok k m)"

definition k_all :: kernel where
  "k_all = \<lparr>init_ok = True, cs_ok = (\<lambda>c. True), solid_ok = (\<lambda>m. True)\<rparr>"

definition k_no_rotate2 :: kernel where
  "k_no_rotate2 = \<lparr>init_ok = True,
      cs_ok = (\<lambda>c. case c of Rotate2 c' d \<Rightarrow> False | _ \<Rightarrow> True),
      solid_ok = (\<lambda>m. True)\<rparr>"

text \<open>
  The translations of the parts that were added, one after the other, onto a solid that
  is not itself a union: for the result of \<open>box\<close>, the positions of its clips.
\<close>

fun clip_offsets :: "Manifold \<Rightarrow> Vec3 list" where
  "clip_offsets (Add a (Translate m v)) = clip_offsets a @ [v]"
| "clip_offsets m = []"

text \<open>The operands of a union of unions: for the result of \<open>createVentHoles\<close>, its holes.\<close>

fun union_parts :: "Manifold \<Rightarrow> Manifold list" where
  "union_parts (Add a b) = union_parts a @ union_parts b"
| "union_parts m = [m]"

text \<open>
  The values of \<open>hole2D\<close> and of the placeholder \<open>bottomPrism.translate(0, 0, -99999)\<close>
  in \<open>createVentHoles\<close>, when the kernel accepts them.
\<close>

definition hole2D_value :: CrossSection where
  "hole2D_value = Rotate2 (Polygon [(- HOLE_LONG / 2, - HOLE_SHORT / 2), (HOLE_LONG / 2, - HOLE_SHORT / 2),
                        (HOLE_LONG / 2, HOLE_SHORT / 2), (- HOLE_LONG / 2, HOLE_SHORT / 2)]) 45"

definition placeholder :: "real \<Rightarrow> Manifold" where
  "placeholder bottom = Translate (Extrude hole2D_value (bottom + 0.8)) (0, 0, - 99999)"

text \<open>
  Modelled from the spec: the extent along \<open>z\<close> of a solid of the kernel, which is not
  part of this repository. An extrusion of height \<open>h\<close> occupies \<open>z\<close> from \<open>0\<close> to \<open>h\<close>
  and a translation shifts it (the inner cavity, extruded by \<open>height - bottom\<close> and
  translated by \<open>bottom\<close>, runs from \<open>z = bottom\<close> to \<open>z = height\<close>); a subtraction
  and a trim stay within their first operand, a union within both. The extent of a
  rotated solid is left open.
\<close>

fun z_range :: "Manifold \<Rightarrow> (real \<times> real) option" where
  "z_range (Extrude c h) = Some (0, h)"
| "z_range (Translate m (x, y, z)) = map_option (\<lambda>(lo, hi). (lo + z, hi + z)) (z_range m)"
| "z_range (Rotate m v) = None"
| "z_range (Add a b) =
     (case (z_range a, z_range b) of
        (Some (l1, h1), Some (l2, h2)) \<Rightarrow> Some (min l1 l2, max h1 h2)
      | _ \<Rightarrow> None)"
| "z_range (Subtract a b) = z_range a"
| "z_range (TrimByPlane m n off) = z_range m"

section \<open>Properties of the axis layout solver\<close>

subsection \<open>The gap loop\<close>

lemma count_at_good:
  fixes u F g :: real
  assumes "0 < F + g" "F \<le> u"
  shows "of_int (max 1 \<lfloor>(u + g) / (F + g)\<rfloor>) * (F + g) \<le> u + g"
proof (cases "1 \<le> \<lfloor>(u + g) / (F + g)\<rfloor>")
  case True
  then have "max 1 \<lfloor>(u + g) / (F + g)\<rfloor> = \<lfloor>(u + g) / (F + g)\<rfloor>" by simp
  moreover have "of_int \<lfloor>(u + g) / (F + g)\<rfloor> * (F + g) \<le> (u + g) / (F + g) * (F + g)"
    using assms(1) by (intro mult_right_mono) auto
  ultimately show ?thesis using assms(1) by simp
next
  case False
  then have "max 1 \<lfloor>(u + g) / (F + g)\<rfloor> = 1" by simp
  then show ?thesis using assms by simp
qed

lemma centered_gap_loop_inv:
  assumes "0 < F + G" "F \<le> u" "G \<le> t"
    and "1 \<le> c" "G \<le> g" "of_int c * (F + g) \<le> u + g"
    and "centered_gap_loop u F cap c g t = (n, g')"
  shows "1 \<le> n \<and> G \<le> g' \<and> of_int n * (F + g') \<le> u + g' \<and> (of_int n \<le> cap \<or> 30 < g')"
  using assms
proof (induction u F cap c g t rule: centered_gap_loop.induct)
  case (1 usable holeSpan maxAxisCount chosenCount chosenGap trialGap)
  show ?case
  proof (cases "of_int chosenCount > maxAxisCount")
    case False
    with "1.prems" show ?thesis
      by (simp add: centered_gap_loop.simps [of usable holeSpan maxAxisCount chosenCount])
  next
    case True
    let ?t = "trialGap + 1"
    let ?count = "max 1 \<lfloor>(usable + ?t) / (holeSpan + ?t)\<rfloor>"
    have pos: "0 < holeSpan + ?t" using "1.prems" by linarith
    have good: "of_int ?count * (holeSpan + ?t) \<le> usable + ?t"
      using count_at_good [OF pos] "1.prems"(2) by simp
    show ?thesis
    proof (cases "?t > 30")
      case big: True
      with True "1.prems"(7) have "n = ?count" "g' = ?t"
        by (auto simp add: centered_gap_loop.simps [of usable holeSpan maxAxisCount chosenCount] Let_def)
      with good big "1.prems"(3) show ?thesis by simp
    next
      case small: False
      with True "1.prems"(7)
      have eq: "centered_gap_loop usable holeSpan maxAxisCount ?count ?t ?t = (n, g')"
        by (simp add: centered_gap_loop.simps [of usable holeSpan maxAxisCount chosenCount] Let_def)
      show ?thesis
        by (rule "1.IH" [OF True refl refl small "1.prems"(1,2) _ _ _ good eq])
           (use "1.prems"(3) in simp_all)
    qed
  qed
qed

lemma vertical_gap_loop_eq:
  "vertical_gap_loop u F cap c g t = centered_gap_loop u F cap c g t"
proof (induction u F cap c g t rule: centered_gap_loop.induct)
  case (1 usable holeSpan maxAxisCount chosenCount chosenGap trialGap)
  show ?case
  proof (cases "of_int chosenCount > maxAxisCount \<and> \<not> trialGap + 1 > 30")
    case True
    then have "vertical_gap_loop usable holeSpan maxAxisCount
           (max 1 \<lfloor>(usable + (trialGap + 1)) / (holeSpan + (trialGap + 1))\<rfloor>)
           (trialGap + 1) (trialGap + 1) =
         centered_gap_loop usable holeSpan maxAxisCount
           (max 1 \<lfloor>(usable + (trialGap + 1)) / (holeSpan + (trialGap + 1))\<rfloor>)
           (trialGap + 1) (trialGap + 1)"
      using "1.IH" [OF _ refl refl] by simp
    with True show ?thesis
      apply (subst vertical_gap_loop.simps)
      apply (subst centered_gap_loop.simps)
      apply (simp only: Let_def)
      done
  next
    case False
    then show ?thesis
      apply (subst vertical_gap_loop.simps)
      apply (subst centered_gap_loop.simps)
      apply (simp only: Let_def)
      apply (cases "of_int chosenCount > maxAxisCount")
       apply (simp_all only: if_True if_False simp_thms)
      done
  qed
qed

lemma centered_shape:
  assumes "F \<le> S - 2 * E" "0 < F + G"
  obtains n g where "1 \<le> n" "G \<le> g" "of_int n * (F + g) \<le> S - 2 * E + g"
    "case C of None \<Rightarrow> True | Some cap \<Rightarrow> of_int n \<le> cap \<or> 30 < g"
    "computeCenteredAxisPositions S F E G C =
       \<lparr>positions = map (\<lambda>i. - S / 2 + E + F / 2 + real i *
            (F + (if n > 1 then g + max 0 (S - 2 * E - (of_int n * F + (of_int n - 1) * g)) / (of_int n - 1) else 0)))
            [0 ..< nat n],
        gapBetween = (if n > 1 then g + max 0 (S - 2 * E - (of_int n * F + (of_int n - 1) * g)) / (of_int n - 1) else 0)\<rparr>"
proof -
  let ?u = "S - 2 * E"
  let ?m = "max 1 \<lfloor>(?u + G) / (F + G)\<rfloor>"
  have m1: "1 \<le> ?m" by simp
  have mgood: "of_int ?m * (F + G) \<le> ?u + G"
    using count_at_good [OF assms(2) assms(1)] .
  let ?X = "case C of None \<Rightarrow> (?m, G)
        | Some cap \<Rightarrow> if of_int ?m > cap then centered_gap_loop ?u F cap ?m G G else (?m, G)"
  obtain n g where ng: "?X = (n, g)"
    by fastforce
  have inv: "1 \<le> n \<and> G \<le> g \<and> of_int n * (F + g) \<le> ?u + g \<and>
             (case C of None \<Rightarrow> True | Some cap \<Rightarrow> of_int n \<le> cap \<or> 30 < g)"
  proof (cases C)
    case None
    with ng have "n = ?m" "g = G" by auto
    with m1 mgood None show ?thesis by simp
  next
    case (Some cap)
    show ?thesis
    proof (cases "of_int ?m > cap")
      case True
      with ng Some have "centered_gap_loop ?u F cap ?m G G = (n, g)" by simp
      from centered_gap_loop_inv [OF assms(2) assms(1) order_refl m1 order_refl mgood this]
      show ?thesis using Some by simp
    next
      case False
      with ng Some have "n = ?m" "g = G" by auto
      with m1 mgood Some False show ?thesis by simp
    qed
  qed
  have eq: "computeCenteredAxisPositions S F E G C =
       \<lparr>positions = map (\<lambda>i. - S / 2 + E + F / 2 + real i *
            (F + (if n > 1 then g + max 0 (S - 2 * E - (of_int n * F + (of_int n - 1) * g)) / (of_int n - 1) else 0)))
            [0 ..< nat n],
        gapBetween = (if n > 1 then g + max 0 (S - 2 * E - (of_int n * F + (of_int n - 1) * g)) / (of_int n - 1) else 0)\<rparr>"
    unfolding computeCenteredAxisPositions_def Let_def ng
    using assms(1) by (simp only: if_False prod.case not_less [symmetric])
  show thesis using that inv eq by blast
qed

lemma centered_gap_loop_unfold:
  "centered_gap_loop u h m c g t =
     (if of_int c > m then
        (if t + 1 > 30 then (max 1 \<lfloor>(u + (t + 1)) / (h + (t + 1))\<rfloor>, t + 1)
         else centered_gap_loop u h m (max 1 \<lfloor>(u + (t + 1)) / (h + (t + 1))\<rfloor>) (t + 1) (t + 1))
      else (c, g))"
  by (subst centered_gap_loop.simps) (simp only: Let_def)

lemma shifted_start:
  fixes S E F K :: real
  shows "map (\<lambda>i. E + F / 2 + real i * K) xs =
         map (\<lambda>p. p + S / 2) (map (\<lambda>i. - S / 2 + E + F / 2 + real i * K) xs)"
  by simp

lemma centered_layout_facts:
  assumes F0: "0 \<le> F" and FG: "0 < F + G" and fit: "F \<le> S - 2 * E"
  shows "positions (computeCenteredAxisPositions S F E G C) \<noteq> [] \<and>
     (\<forall>p \<in> set (positions (computeCenteredAxisPositions S F E G C)).
        - S / 2 + E + F / 2 \<le> p \<and> p \<le> S / 2 - E - F / 2) \<and>
     (\<forall>i. Suc i < length (positions (computeCenteredAxisPositions S F E G C)) \<longrightarrow>
        positions (computeCenteredAxisPositions S F E G C) ! Suc i
          - positions (computeCenteredAxisPositions S F E G C) ! i
          = F + gapBetween (computeCenteredAxisPositions S F E G C) \<and>
        F + G \<le> positions (computeCenteredAxisPositions S F E G C) ! Suc i
          - positions (computeCenteredAxisPositions S F E G C) ! i) \<and>
     hd (positions (computeCenteredAxisPositions S F E G C)) = - S / 2 + E + F / 2"
proof -
  let ?u = "S - 2 * E"
  let ?start = "- S / 2 + E + F / 2"
  obtain n g where n1: "1 \<le> n" and gG: "G \<le> g"
    and used: "of_int n * (F + g) \<le> ?u + g"
    and r: "computeCenteredAxisPositions S F E G C =
       \<lparr>positions = map (\<lambda>i. ?start + real i *
            (F + (if n > 1 then g + max 0 (?u - (of_int n * F + (of_int n - 1) * g)) / (of_int n - 1) else 0)))
            [0 ..< nat n],
        gapBetween = (if n > 1 then g + max 0 (?u - (of_int n * F + (of_int n - 1) * g)) / (of_int n - 1) else 0)\<rparr>"
    using centered_shape [OF fit FG, of C] by metis
  define L where "L = ?u - (of_int n * F + (of_int n - 1) * g)"
  define K where "K = (if n > 1 then g + max 0 L / (of_int n - 1) else 0)"
  have L0: "0 \<le> L"
    using used by (simp add: L_def algebra_simps)
  have ps: "positions (computeCenteredAxisPositions S F E G C) =
              map (\<lambda>i. ?start + real i * (F + K)) [0 ..< nat n]"
    and gb: "gapBetween (computeCenteredAxisPositions S F E G C) = K"
    unfolding r K_def L_def by simp_all
  have Kg: "g \<le> K" if "1 < n"
    using that L0 by (simp add: K_def)
  have step0: "0 \<le> F + K"
  proof (cases "1 < n")
    case True
    with Kg gG FG show ?thesis by fastforce
  next
    case False
    with F0 show ?thesis by (simp add: K_def)
  qed
  have span: "(of_int n - 1) * (F + K) = ?u - F" if "1 < n"
  proof -
    from that have nz: "real_of_int n - 1 \<noteq> 0" by simp
    have "(of_int n - 1) * K = (of_int n - 1) * g + L"
      using that L0 nz by (simp add: K_def max_def field_simps)
    then show ?thesis by (simp add: L_def algebra_simps)
  qed
  have last: "(of_int n - 1) * (F + K) \<le> ?u - F"
  proof (cases "1 < n")
    case True
    from span [OF True] show ?thesis by simp
  next
    case False
    with n1 have "n = 1" by simp
    with fit show ?thesis by simp
  qed
  have bounds: "- S / 2 + E + F / 2 \<le> ?start + real i * (F + K) \<and>
                ?start + real i * (F + K) \<le> S / 2 - E - F / 2" if "i < nat n" for i
  proof -
    have "real i \<le> of_int n - 1" using that by linarith
    then have up: "real i * (F + K) \<le> (of_int n - 1) * (F + K)"
      using step0 by (rule mult_right_mono)
    have lo: "0 \<le> real i * (F + K)" using step0 by simp
    from up lo last show ?thesis by linarith
  qed
  have ne: "positions (computeCenteredAxisPositions S F E G C) \<noteq> []"
    using n1 by (simp add: ps)
  have inside: "\<forall>p \<in> set (positions (computeCenteredAxisPositions S F E G C)).
        - S / 2 + E + F / 2 \<le> p \<and> p \<le> S / 2 - E - F / 2"
    unfolding ps using bounds by auto
  have consec: "\<forall>i. Suc i < length (positions (computeCenteredAxisPositions S F E G C)) \<longrightarrow>
        positions (computeCenteredAxisPositions S F E G C) ! Suc i
          - positions (computeCenteredAxisPositions S F E G C) ! i
          = F + gapBetween (computeCenteredAxisPositions S F E G C) \<and>
        F + G \<le> positions (computeCenteredAxisPositions S F E G C) ! Suc i
          - positions (computeCenteredAxisPositions S F E G C) ! i"
  proof (intro allI impI)
    fix i assume "Suc i < length (positions (computeCenteredAxisPositions S F E G C))"
    then have i: "Suc i < nat n" by (simp add: ps)
    then have "1 < n" by linarith
    from Kg [OF this] gG have GK: "G \<le> K" by simp
    have d: "positions (computeCenteredAxisPositions S F E G C) ! Suc i
          - positions (computeCenteredAxisPositions S F E G C) ! i = F + K"
      using i by (simp add: ps algebra_simps)
    show "positions (computeCenteredAxisPositions S F E G C) ! Suc i
          - positions (computeCenteredAxisPositions S F E G C) ! i
          = F + gapBetween (computeCenteredAxisPositions S F E G C) \<and>
        F + G \<le> positions (computeCenteredAxisPositions S F E G C) ! Suc i
          - positions (computeCenteredAxisPositions S F E G C) ! i"
      unfolding d gb using GK by simp
  qed
  have first: "hd (positions (computeCenteredAxisPositions S F E G C)) = ?start"
  proof -
    from n1 have "0 < nat n" by simp
    then have "[0 ..< nat n] = 0 # [Suc 0 ..< nat n]" by (rule upt_conv_Cons)
    then show ?thesis by (simp add: ps)
  qed
  from ne inside consec first show ?thesis by blast
qed

lemma centered_example:
  "computeCenteredAxisPositions 40 7 3 4 (Some 12) =
     \<lparr>positions = [- 27 / 2, 0, 27 / 2], gapBetween = 13 / 2\<rparr>"
  unfolding computeCenteredAxisPositions_def Let_def
  by (simp add: eval_nat_numeral)

subsection \<open>The vertical solver over the reals\<close>

text \<open>
  Over the reals the vertical solver returns the positions of the centered solver, each
  shifted by \<open>S/2\<close>, in the same number, and the same gap: the two gap loops are equal
  and the start values differ by \<open>S/2\<close>.
\<close>

lemma vertical_shift_over_reals:
  "positions (computeVerticalPositions S F E G C) =
     map (\<lambda>p. p + S / 2) (positions (computeCenteredAxisPositions S F E G C)) \<and>
   length (positions (computeVerticalPositions S F E G C)) =
     length (positions (computeCenteredAxisPositions S F E G C)) \<and>
   gapBetween (computeVerticalPositions S F E G C) =
     gapBetween (computeCenteredAxisPositions S F E G C)"
proof (cases "S - 2 * E < F")
  case True
  then show ?thesis
    by (simp add: computeVerticalPositions_def computeCenteredAxisPositions_def)
next
  case False
  let ?u = "S - 2 * E"
  let ?m = "max 1 \<lfloor>(?u + G) / (F + G)\<rfloor>"
  let ?X = "case C of None \<Rightarrow> (?m, G)
        | Some cap \<Rightarrow> if of_int ?m > cap then centered_gap_loop ?u F cap ?m G G else (?m, G)"
  obtain n g where ng: "?X = (n, g)"
    by fastforce
  define K where "K = (if n > 1 then g + max 0 (?u - (of_int n * F + (of_int n - 1) * g)) / (of_int n - 1) else 0)"
  have c: "computeCenteredAxisPositions S F E G C =
      \<lparr>positions = map (\<lambda>i. - S / 2 + E + F / 2 + real i * (F + K)) [0 ..< nat n], gapBetween = K\<rparr>"
    unfolding computeCenteredAxisPositions_def Let_def ng K_def
    using False by (simp only: if_False prod.case)
  have v: "computeVerticalPositions S F E G C =
      \<lparr>positions = map (\<lambda>i. E + F / 2 + real i * (F + K)) [0 ..< nat n], gapBetween = K\<rparr>"
    unfolding computeVerticalPositions_def Let_def vertical_gap_loop_eq ng K_def
    using False by (simp only: if_False prod.case)
  show ?thesis
    unfolding c v using shifted_start [of E F "F + K" "[0 ..< nat n]" S] by simp
qed

section \<open>Properties of binary64 rounding\<close>

text \<open>
  \<open>rne\<close> and \<open>fl\<close> are monotone and odd; \<open>fl\<close> leaves a number \<open>m * 2^j\<close> with
  \<open>\<bar>m\<bar> < 2^53\<close> as it is, so it is idempotent. \<open>fl_val_ge1\<close> and \<open>fl_val_lt1\<close> give
  the rounding of a number from its binade and a bracket of its significand.
\<close>

lemma rne_of_int [simp]: "rne (of_int k) = k"
  by (simp add: rne_def)

lemma rne_bounds: "\<lfloor>x\<rfloor> \<le> rne x \<and> rne x \<le> \<lfloor>x\<rfloor> + 1"
  by (simp add: rne_def Let_def)

lemma rne_mono:
  assumes "a \<le> b"
  shows "rne a \<le> rne b"
proof (cases "\<lfloor>a\<rfloor> < \<lfloor>b\<rfloor>")
  case True
  then show ?thesis using rne_bounds [of a] rne_bounds [of b] by linarith
next
  case False
  with assms have eq: "\<lfloor>a\<rfloor> = \<lfloor>b\<rfloor>" using floor_mono [of a b] by linarith
  with assms show ?thesis by (auto simp: rne_def Let_def)
qed

lemma rne_minus: "rne (- x) = - rne x"
proof (cases "x = of_int \<lfloor>x\<rfloor>")
  case True
  then obtain k where "x = of_int k" ..
  then have "- x = of_int (- k)" by simp
  then show ?thesis using \<open>x = of_int k\<close> by (metis rne_of_int)
next
  case False
  then have fl: "\<lfloor>- x\<rfloor> = - \<lfloor>x\<rfloor> - 1"
    by (metis Ints_of_int ceiling_altdef ceiling_def diff_minus_eq_add minus_add_cancel of_int_floor uminus_add_conv_diff)
  have fr: "- x - of_int (- \<lfloor>x\<rfloor> - 1) = 1 - (x - of_int \<lfloor>x\<rfloor>)" by simp
  show ?thesis
    unfolding rne_def Let_def fl fr by auto
qed

lemma binade:
  assumes "x \<noteq> 0"
  shows "2 powr of_int \<lfloor>log 2 \<bar>x\<bar>\<rfloor> \<le> \<bar>x\<bar>" "\<bar>x\<bar> < 2 powr (of_int \<lfloor>log 2 \<bar>x\<bar>\<rfloor> + 1)"
proof -
  have pos: "0 < \<bar>x\<bar>" using assms by simp
  have "of_int \<lfloor>log 2 \<bar>x\<bar>\<rfloor> \<le> log 2 \<bar>x\<bar>" by simp
  then show "2 powr of_int \<lfloor>log 2 \<bar>x\<bar>\<rfloor> \<le> \<bar>x\<bar>"
    using pos by (simp add: powr_le_iff)
  have "log 2 \<bar>x\<bar> < of_int \<lfloor>log 2 \<bar>x\<bar>\<rfloor> + 1" by linarith
  then show "\<bar>x\<bar> < 2 powr (of_int \<lfloor>log 2 \<bar>x\<bar>\<rfloor> + 1)"
    using pos by (simp add: less_powr_iff)
qed

lemma floor_log_unique:
  assumes "0 < a" "2 powr of_int e \<le> a" "a < 2 powr (of_int e + 1)"
  shows "\<lfloor>log 2 a\<rfloor> = e"
proof (rule floor_unique)
  show "of_int e \<le> log 2 a" using assms by (simp add: le_log_iff)
  show "log 2 a < of_int e + 1" using assms by (simp add: log_less_iff)
qed

lemma fl_eval:
  assumes "2 powr of_int e \<le> \<bar>x\<bar>" "\<bar>x\<bar> < 2 powr (of_int e + 1)"
  shows "fl x = of_int (rne (x / 2 powr (of_int e - 52))) * 2 powr (of_int e - 52)"
proof -
  have "0 < \<bar>x\<bar>" using assms(1) powr_gt_zero [of 2 "of_int e"] by linarith
  then have nz: "x \<noteq> 0" by simp
  have "\<lfloor>log 2 \<bar>x\<bar>\<rfloor> = e" using \<open>0 < \<bar>x\<bar>\<close> assms by (rule floor_log_unique)
  then show ?thesis using nz by (simp add: fl_def Let_def)
qed

lemma fl_eval_ge1:
  assumes "2 ^ k \<le> \<bar>x\<bar>" "\<bar>x\<bar> < 2 * 2 ^ k" "k \<le> 52"
  shows "fl x = of_int (rne (x * 2 ^ (52 - k))) / 2 ^ (52 - k)"
proof -
  have a: "2 powr of_int (int k) \<le> \<bar>x\<bar>"
    using assms(1) by (simp add: powr_realpow)
  have b: "\<bar>x\<bar> < 2 powr (of_int (int k) + 1)"
    using assms(2) by (simp add: powr_add powr_realpow)
  have q: "(2::real) powr (of_int (int k) - 52) = 1 / 2 ^ (52 - k)"
  proof -
    have "of_int (int k) - (52::real) = - real (52 - k)" using assms(3) by simp
    then have "(2::real) powr (of_int (int k) - 52) = 2 powr (- real (52 - k))"
      by (rule arg_cong)
    also have "\<dots> = 1 / 2 ^ (52 - k)"
      by (simp add: powr_minus powr_realpow inverse_eq_divide del: of_nat_diff)
    finally show ?thesis .
  qed
  show ?thesis unfolding fl_eval [OF a b] q by simp
qed

lemma fl_eval_lt1:
  assumes "1 \<le> \<bar>x\<bar> * 2 ^ k" "\<bar>x\<bar> * 2 ^ k < 2"
  shows "fl x = of_int (rne (x * 2 ^ (52 + k))) / 2 ^ (52 + k)"
proof -
  have p: "(2::real) powr of_int (- int k) = 1 / 2 ^ k"
    by (simp add: powr_minus powr_realpow inverse_eq_divide)
  have a: "2 powr of_int (- int k) \<le> \<bar>x\<bar>"
    unfolding p using assms(1) by (simp add: field_simps)
  have b: "\<bar>x\<bar> < 2 powr (of_int (- int k) + 1)"
    unfolding powr_add p using assms(2) by (simp add: field_simps)
  have q: "(2::real) powr (of_int (- int k) - 52) = 1 / 2 ^ (52 + k)"
  proof -
    have "of_int (- int k) - (52::real) = - real (52 + k)" by simp
    then have "(2::real) powr (of_int (- int k) - 52) = 2 powr (- real (52 + k))"
      by (rule arg_cong)
    also have "\<dots> = 1 / 2 ^ (52 + k)"
      by (simp add: powr_minus powr_realpow inverse_eq_divide del: of_nat_add)
    finally show ?thesis .
  qed
  show ?thesis unfolding fl_eval [OF a b] q by simp
qed

lemma fl_minus: "fl (- x) = - fl x"
  by (simp add: fl_def Let_def rne_minus)

lemma fl_zero [simp]: "fl 0 = 0"
  by (simp add: fl_def)

lemma fl_pos_bounds:
  assumes "0 < x"
  shows "2 powr of_int \<lfloor>log 2 x\<rfloor> \<le> fl x" "fl x \<le> 2 powr (of_int \<lfloor>log 2 x\<rfloor> + 1)"
proof -
  let ?e = "\<lfloor>log 2 x\<rfloor>"
  let ?q = "(2::real) powr (of_int ?e - 52)"
  let ?m = "rne (x / ?q)"
  have nz: "x \<noteq> 0" and ax: "\<bar>x\<bar> = x" using assms by simp_all
  have q0: "0 < ?q" by simp
  have f: "fl x = of_int ?m * ?q"
    using nz by (simp add: fl_def Let_def ax)
  have lo: "2 powr of_int ?e \<le> x" and hi: "x < 2 powr (of_int ?e + 1)"
    using binade [OF nz] by (simp_all add: ax)
  have e1: "2 powr of_int ?e = of_int (2 ^ 52) * ?q"
  proof -
    have "(2::real) powr of_int ?e = 2 powr (52 + (of_int ?e - 52))" by simp
    also have "\<dots> = 2 powr 52 * 2 powr (of_int ?e - 52)" by (rule powr_add)
    also have "(2::real) powr 52 = of_int (2 ^ 52)" by simp
    finally show ?thesis .
  qed
  have e2: "2 powr (of_int ?e + 1) = of_int (2 ^ 53) * ?q"
  proof -
    have "of_int ?e + (1::real) = 53 + (of_int ?e - 52)" by simp
    then have "(2::real) powr (of_int ?e + 1) = 2 powr (53 + (of_int ?e - 52))"
      by (rule arg_cong)
    also have "\<dots> = 2 powr 53 * 2 powr (of_int ?e - 52)" by (rule powr_add)
    also have "(2::real) powr 53 = of_int (2 ^ 53)" by simp
    finally show ?thesis .
  qed
  have "of_int (2 ^ 52) \<le> x / ?q"
    using lo q0 unfolding e1 by (simp add: pos_le_divide_eq)
  then have "rne (of_int (2 ^ 52)) \<le> ?m" by (rule rne_mono)
  then have "(of_int (2 ^ 52) :: real) \<le> of_int ?m"
    unfolding rne_of_int by (simp only: of_int_le_iff)
  then have "of_int (2 ^ 52) * ?q \<le> of_int ?m * ?q"
    using q0 by (intro mult_right_mono) simp_all
  then show "2 powr of_int ?e \<le> fl x" unfolding f e1 .
  have "x / ?q \<le> of_int (2 ^ 53)"
    using hi q0 unfolding e2 by (simp add: pos_divide_le_eq)
  then have "?m \<le> rne (of_int (2 ^ 53))" by (rule rne_mono)
  then have "of_int ?m \<le> (of_int (2 ^ 53) :: real)"
    unfolding rne_of_int by (simp only: of_int_le_iff)
  then have "of_int ?m * ?q \<le> of_int (2 ^ 53) * ?q"
    using q0 by (intro mult_right_mono) simp_all
  then show "fl x \<le> 2 powr (of_int ?e + 1)" unfolding f e2 .
qed

lemma fl_mono_pos:
  assumes "0 < x" "x \<le> y"
  shows "fl x \<le> fl y"
proof -
  have y0: "0 < y" using assms by simp
  let ?ex = "\<lfloor>log 2 x\<rfloor>" and ?ey = "\<lfloor>log 2 y\<rfloor>"
  have le: "?ex \<le> ?ey"
    using assms by (intro floor_mono) (simp add: log_le_cancel_iff)
  show ?thesis
  proof (cases "?ex = ?ey")
    case True
    let ?q = "(2::real) powr (of_int ?ex - 52)"
    have "rne (x / ?q) \<le> rne (y / ?q)"
      using assms by (intro rne_mono divide_right_mono) simp_all
    then have "of_int (rne (x / ?q)) * ?q \<le> of_int (rne (y / ?q)) * ?q"
      by (simp add: mult_right_mono)
    then show ?thesis using assms y0 True by (simp add: fl_def Let_def)
  next
    case False
    with le have "?ex + 1 \<le> ?ey" by simp
    then have "(of_int ?ex + 1 :: real) \<le> of_int ?ey" by linarith
    then have "(2::real) powr (of_int ?ex + 1) \<le> 2 powr of_int ?ey"
      by (intro powr_mono) simp_all
    with fl_pos_bounds(2) [OF assms(1)] fl_pos_bounds(1) [OF y0] show ?thesis by linarith
  qed
qed

lemma fl_nonneg:
  assumes "0 \<le> x"
  shows "0 \<le> fl x"
proof (cases "x = 0")
  case True
  then show ?thesis by simp
next
  case False
  with assms have "0 < x" by simp
  from fl_pos_bounds(1) [OF this] have "(2::real) powr of_int \<lfloor>log 2 x\<rfloor> \<le> fl x" .
  moreover have "0 < (2::real) powr of_int \<lfloor>log 2 x\<rfloor>" by simp
  ultimately show ?thesis by linarith
qed

lemma fl_mono:
  assumes "x \<le> y"
  shows "fl x \<le> fl y"
proof -
  consider "0 < x" | "x \<le> 0" "0 \<le> y" | "y < 0" using assms by linarith
  then show ?thesis
  proof cases
    case 1
    then show ?thesis using assms by (rule fl_mono_pos)
  next
    case 2
    from 2(1) have "0 \<le> fl (- x)" by (intro fl_nonneg) simp
    then have "fl x \<le> 0" by (simp add: fl_minus)
    with fl_nonneg [OF 2(2)] show ?thesis by linarith
  next
    case 3
    then have "fl (- y) \<le> fl (- x)" using assms by (intro fl_mono_pos) simp_all
    then show ?thesis by (simp add: fl_minus)
  qed
qed

lemma fl_exact:
  assumes x: "x = of_int m * 2 powr of_int j" and m: "\<bar>m\<bar> < 2 ^ 53"
  shows "fl x = x"
proof (cases "x = 0")
  case True
  then show ?thesis by simp
next
  case False
  define e where "e = \<lfloor>log 2 \<bar>x\<bar>\<rfloor>"
  have f: "fl x = of_int (rne (x / 2 powr (of_int e - 52))) * 2 powr (of_int e - 52)"
    using False by (simp add: fl_def Let_def e_def)
  have lo: "2 powr of_int e \<le> \<bar>x\<bar>"
    unfolding e_def using False by (rule binade(1))
  have "\<bar>x\<bar> = of_int \<bar>m\<bar> * 2 powr of_int j"
    unfolding x by (simp add: abs_mult)
  also have "\<dots> < of_int (2 ^ 53) * 2 powr of_int j"
  proof (rule mult_strict_right_mono)
    show "(of_int \<bar>m\<bar> :: real) < of_int (2 ^ 53)"
      using m by (simp only: of_int_less_iff)
    show "0 < (2::real) powr of_int j" by simp
  qed
  also have "(of_int (2 ^ 53) :: real) = 2 powr 53" by simp
  also have "2 powr 53 * 2 powr of_int j = (2::real) powr (53 + of_int j)"
    by (rule powr_add [symmetric])
  finally have up: "\<bar>x\<bar> < 2 powr (53 + of_int j)" .
  from lo up have "(2::real) powr of_int e < 2 powr (53 + of_int j)"
    by linarith
  then have "of_int e < (53 + of_int j :: real)" by simp
  then have ej: "e < 53 + j" by linarith
  define d where "d = nat (j - e + 52)"
  have d: "int d = j - e + 52" using ej by (simp add: d_def)
  have "of_int j = of_int (int d) + (of_int e - 52 :: real)"
    unfolding d by simp
  then have "(2::real) powr of_int j = 2 powr (of_int (int d) + (of_int e - 52))"
    by (rule arg_cong)
  also have "\<dots> = 2 powr of_int (int d) * 2 powr (of_int e - 52)" by (rule powr_add)
  also have "(2::real) powr of_int (int d) = 2 ^ d" by (simp add: powr_realpow)
  finally have pj: "(2::real) powr of_int j = 2 ^ d * 2 powr (of_int e - 52)" .
  have xq: "x = of_int (m * 2 ^ d) * 2 powr (of_int e - 52)"
    unfolding x pj by simp
  have "x / 2 powr (of_int e - 52) = of_int (m * 2 ^ d)"
    by (subst xq) simp
  then have "rne (x / 2 powr (of_int e - 52)) = m * 2 ^ d"
    by (simp only: rne_of_int)
  then have "fl x = of_int (m * 2 ^ d) * 2 powr (of_int e - 52)"
    unfolding f by (simp only:)
  with xq show ?thesis by (simp only:)
qed

lemma fl_of_int:
  assumes "\<bar>m\<bar> < 2 ^ 53"
  shows "fl (of_int m) = of_int m"
  using fl_exact [of "of_int m" m 0] assms by simp

lemma fl_half_int:
  assumes "\<bar>m\<bar> < 2 ^ 53"
  shows "fl (of_int m / 2) = of_int m / 2"
proof -
  have "of_int m / (2::real) = of_int m * 2 powr of_int (- 1)"
    by (simp add: powr_minus inverse_eq_divide)
  from fl_exact [OF this assms] show ?thesis .
qed

lemma rne_eqI:
  assumes "of_int m - 1 / 2 < x" "x < of_int m + 1 / 2"
  shows "rne x = m"
proof -
  have "\<lfloor>x\<rfloor> = m \<or> \<lfloor>x\<rfloor> = m - 1" using assms by linarith
  then show ?thesis
  proof
    assume f: "\<lfloor>x\<rfloor> = m"
    with assms show ?thesis by (simp add: rne_def)
  next
    assume f: "\<lfloor>x\<rfloor> = m - 1"
    with assms show ?thesis by (simp add: rne_def)
  qed
qed

lemma fl_val_ge1:
  assumes "2 ^ k \<le> \<bar>x\<bar>" "\<bar>x\<bar> < 2 * 2 ^ k" "k \<le> 52"
    and "of_int m - 1 / 2 < x * 2 ^ (52 - k)" "x * 2 ^ (52 - k) < of_int m + 1 / 2"
  shows "fl x = of_int m / 2 ^ (52 - k)"
  unfolding fl_eval_ge1 [OF assms(1-3)] rne_eqI [OF assms(4,5)] ..

lemma fl_val_lt1:
  assumes "1 \<le> \<bar>x\<bar> * 2 ^ k" "\<bar>x\<bar> * 2 ^ k < 2"
    and "of_int m - 1 / 2 < x * 2 ^ (52 + k)" "x * 2 ^ (52 + k) < of_int m + 1 / 2"
  shows "fl x = of_int m / 2 ^ (52 + k)"
  unfolding fl_eval_lt1 [OF assms(1,2)] rne_eqI [OF assms(3,4)] ..

lemma fl_idem: "fl (fl x) = fl x"
proof (cases "x = 0")
  case True
  then show ?thesis by simp
next
  case False
  define e where "e = \<lfloor>log 2 \<bar>x\<bar>\<rfloor>"
  define q where "q = (2::real) powr (of_int e - 52)"
  define m where "m = rne (x / q)"
  have q0: "0 < q" unfolding q_def by (simp add: powr_gt_zero)
  have flx: "fl x = of_int m * q"
    using False by (simp add: fl_def Let_def m_def q_def e_def)
  have qe: "q * 2 ^ 52 = 2 powr of_int e"
  proof -
    have "(2::real) powr of_int e = 2 powr ((of_int e - 52) + 52)" by simp
    also have "\<dots> = 2 powr (of_int e - 52) * 2 powr 52" by (rule powr_add)
    also have "(2::real) powr 52 = 2 ^ 52"
      using powr_realpow [of 2 52] by simp
    finally show ?thesis by (simp add: q_def)
  qed
  have qe1: "q * 2 ^ 53 = 2 powr (of_int e + 1)"
  proof -
    have "(2::real) powr (of_int e + 1) = 2 powr of_int e * 2 powr 1" by (rule powr_add)
    then show ?thesis using qe by simp
  qed
  from binade [OF False] have lo: "q * 2 ^ 52 \<le> \<bar>x\<bar>" and hi: "\<bar>x\<bar> < q * 2 ^ 53"
    unfolding e_def [symmetric] qe qe1 by simp_all
  have ax: "\<bar>x / q\<bar> = \<bar>x\<bar> / q" using q0 by simp
  have lo': "2 ^ 52 \<le> \<bar>x / q\<bar>" unfolding ax using lo q0 by (simp add: field_simps)
  have hi': "\<bar>x / q\<bar> < 2 ^ 53" unfolding ax using hi q0 by (simp add: field_simps)
  have mb: "\<bar>m\<bar> \<le> 2 ^ 53"
  proof -
    define y where "y = x / q"
    have y: "\<bar>y\<bar> < 2 ^ 53" using hi' unfolding y_def .
    have a: "x / q \<le> of_int (2 ^ 53)" unfolding y_def [symmetric] using y by simp
    have b: "of_int (- (2 ^ 53)) \<le> x / q" unfolding y_def [symmetric] using y by simp
    from rne_mono [OF a] rne_mono [OF b] show ?thesis
      unfolding m_def rne_of_int by simp
  qed
  have pe: "q = 2 powr of_int (e - 52)" unfolding q_def by simp
  show ?thesis
  proof (cases "\<bar>m\<bar> < 2 ^ 53")
    case True
    have "fl x = of_int m * 2 powr of_int (e - 52)" unfolding flx pe ..
    from fl_exact [OF this True] show ?thesis .
  next
    case False
    with mb have "\<bar>m\<bar> = 2 ^ 53" by simp
    then have m2: "m = 2 * (if 0 \<le> m then 2 ^ 52 else - (2 ^ 52))" by (simp add: abs_if split: if_splits)
    define m' :: int where "m' = (if 0 \<le> m then 2 ^ 52 else - (2 ^ 52))"
    have m'b: "\<bar>m'\<bar> < 2 ^ 53" by (simp add: m'_def)
    have q2: "2 * q = 2 powr of_int (e - 51)"
    proof -
      have "(2::real) powr of_int (e - 51) = 2 powr ((of_int e - 52) + 1)" by simp
      also have "\<dots> = 2 powr (of_int e - 52) * 2 powr 1" by (rule powr_add)
      finally show ?thesis by (simp add: q_def)
    qed
    have "of_int m * q = of_int m' * (2 * q)"
      using m2 unfolding m'_def [symmetric] by simp
    then have "fl x = of_int m' * 2 powr of_int (e - 51)" unfolding flx q2 .
    from fl_exact [OF this m'b] show ?thesis .
  qed
qed

lemma fadd_zero_right: "fadd (fl x) 0 = fl x"
  by (simp add: fadd_def fl_idem)

lemma fmul_zero_left: "fmul 0 x = 0"
  by (simp add: fmul_def)

lemma fl_int_shift:
  assumes "\<bar>m\<bar> < 2 ^ 53"
  shows "fl (of_int m / 2 ^ j) = of_int m / 2 ^ j"
proof (rule fl_exact [of _ m "- int j"])
  have "(2::real) powr of_int (- int j) = 1 / 2 ^ j"
    by (simp add: powr_minus powr_realpow divide_simps)
  then show "(of_int m :: real) / 2 ^ j = of_int m * 2 powr of_int (- int j)" by simp
  show "\<bar>m\<bar> < 2 ^ 53" by (rule assms)
qed

lemma rne_err: "\<bar>of_int (rne x) - x\<bar> \<le> 1 / 2"
proof -
  have "of_int \<lfloor>x\<rfloor> \<le> x" "x < of_int \<lfloor>x\<rfloor> + 1" by linarith+
  then show ?thesis by (auto simp: rne_def Let_def)
qed

lemma fl_err: "\<bar>fl x - x\<bar> \<le> \<bar>x\<bar> / 2 ^ 53"
proof (cases "x = 0")
  case True
  then show ?thesis by simp
next
  case False
  define e where "e = \<lfloor>log 2 \<bar>x\<bar>\<rfloor>"
  define q where "q = (2::real) powr (of_int e - 52)"
  define m where "m = rne (x / q)"
  have q0: "0 < q" unfolding q_def by (simp add: powr_gt_zero)
  have flx: "fl x = of_int m * q"
    using False by (simp add: fl_def Let_def m_def q_def e_def)
  have qe: "q * 2 ^ 52 = 2 powr of_int e"
  proof -
    have "(2::real) powr of_int e = 2 powr ((of_int e - 52) + 52)" by simp
    also have "\<dots> = 2 powr (of_int e - 52) * 2 powr 52" by (rule powr_add)
    also have "(2::real) powr 52 = 2 ^ 52"
      using powr_realpow [of 2 52] by simp
    finally show ?thesis by (simp add: q_def)
  qed
  from binade(1) [OF False] have lo: "q * 2 ^ 52 \<le> \<bar>x\<bar>"
    unfolding e_def [symmetric] qe .
  have "fl x - x = (of_int m - x / q) * q"
    unfolding flx using q0 by (simp add: field_simps)
  then have "\<bar>fl x - x\<bar> = \<bar>of_int m - x / q\<bar> * q"
    using q0 by (simp add: abs_mult)
  also have "\<dots> \<le> (1 / 2) * q"
    using rne_err [of "x / q"] q0 unfolding m_def by (intro mult_right_mono) simp_all
  also have "\<dots> = (q * 2 ^ 52) / 2 ^ 53" by simp
  also have "\<dots> \<le> \<bar>x\<bar> / 2 ^ 53"
    using lo by (intro divide_right_mono) simp_all
  finally show ?thesis .
qed

lemma fl_near:
  assumes "\<bar>x\<bar> \<le> 1024"
  shows "fl x \<le> x + 1 / 2 ^ 43" and "x - 1 / 2 ^ 43 \<le> fl x"
proof -
  have "\<bar>x\<bar> / 2 ^ 53 \<le> 1024 / 2 ^ 53"
    using assms by (intro divide_right_mono) simp_all
  with fl_err [of x] have "\<bar>fl x - x\<bar> \<le> 1 / 2 ^ 43" by simp
  then show "fl x \<le> x + 1 / 2 ^ 43" and "x - 1 / 2 ^ 43 \<le> fl x" by linarith+
qed

lemma fl_between:
  assumes "of_int a \<le> x" "x \<le> of_int b" "\<bar>a\<bar> < 2 ^ 53" "\<bar>b\<bar> < 2 ^ 53"
  shows "of_int a \<le> fl x" "fl x \<le> of_int b"
  using fl_mono [OF assms(1)] fl_mono [OF assms(2)]
  unfolding fl_of_int [OF assms(3)] fl_of_int [OF assms(4)] by simp_all

text \<open>The values of \<open>Math.SQRT2\<close> and of \<open>HOLE_SPAN_PLANAR\<close> in binary64.\<close>

lemma SQRT2_val: "SQRT2 = 6369051672525773 / 2 ^ 52"
proof -
  have lo: "12738103345051545 / 2 ^ 53 < sqrt 2"
    by (rule real_less_rsqrt) (simp add: power2_eq_square)
  have hi: "sqrt 2 < 12738103345051547 / 2 ^ 53"
    by (rule real_less_lsqrt) (simp_all add: power2_eq_square)
  have "fl (sqrt 2) = of_int 6369051672525773 / 2 ^ (52 - 0)"
  proof (rule fl_val_ge1)
    show "2 ^ 0 \<le> \<bar>sqrt 2\<bar>" by simp
    show "\<bar>sqrt 2\<bar> < 2 * 2 ^ 0" using hi by simp
    show "of_int 6369051672525773 - 1 / 2 < sqrt 2 * 2 ^ (52 - 0)" using lo by simp
    show "sqrt 2 * 2 ^ (52 - 0) < of_int 6369051672525773 + 1 / 2" using hi by simp
  qed simp
  then show ?thesis by (simp add: SQRT2_def)
qed

lemma H_val: "HOLE_SPAN_PLANAR64 = 7961314590657215 / 2 ^ 50"
  using fl_val_ge1 [of 2 "10 / (6369051672525773 / 2 ^ 52)" 7961314590657215]
  by (simp add: HOLE_SPAN_PLANAR64_def fdiv_def fadd_def HOLE_LONG_def HOLE_SHORT_def SQRT2_val
      fl_of_int [of 10, simplified])

lemma H_bounds: "7 < HOLE_SPAN_PLANAR64" "HOLE_SPAN_PLANAR64 < 8"
  by (simp_all add: H_val)

section \<open>Properties of the axis layout solver in binary64\<close>

subsection \<open>The two gap loops\<close>

lemma loop64_cv:
  assumes "centered_gap_loop64 u h m c g t = Some y"
  shows "vertical_gap_loop64 u h m c g t = Some y"
proof (rule centered_gap_loop64.raw_induct
    [where P = "\<lambda>u h m c g t y. vertical_gap_loop64 u h m c g t = Some y", OF _ assms])
  fix f :: "real \<Rightarrow> real \<Rightarrow> real \<Rightarrow> int \<Rightarrow> real \<Rightarrow> real \<Rightarrow> (int \<times> real) option"
    and u h m c g t y
  assume IH: "\<And>u h m c g t y. f u h m c g t = Some y \<Longrightarrow> vertical_gap_loop64 u h m c g t = Some y"
    and body: "(if m < of_int c
      then if 30 < fadd t 1
           then Some (max 1 \<lfloor>fdiv (fadd u (fadd t 1)) (fadd h (fadd t 1))\<rfloor>, fadd t 1)
           else f u h m (max 1 \<lfloor>fdiv (fadd u (fadd t 1)) (fadd h (fadd t 1))\<rfloor>) (fadd t 1) (fadd t 1)
      else Some (c, g)) = Some y"
  show "vertical_gap_loop64 u h m c g t = Some y"
  proof (cases "m < of_int c")
    case False
    with body show ?thesis by (subst vertical_gap_loop64.simps) simp
  next
    case True
    show ?thesis
    proof (cases "30 < fadd t 1")
      case big: True
      with True body show ?thesis by (subst vertical_gap_loop64.simps) simp
    next
      case small: False
      with True body
      have "f u h m (max 1 \<lfloor>fdiv (fadd u (fadd t 1)) (fadd h (fadd t 1))\<rfloor>) (fadd t 1) (fadd t 1) = Some y"
        by simp
      from IH [OF this] True small show ?thesis
        by (subst vertical_gap_loop64.simps) simp
    qed
  qed
qed

lemma loop64_vc:
  assumes "vertical_gap_loop64 u h m c g t = Some y"
  shows "centered_gap_loop64 u h m c g t = Some y"
proof (rule vertical_gap_loop64.raw_induct
    [where P = "\<lambda>u h m c g t y. centered_gap_loop64 u h m c g t = Some y", OF _ assms])
  fix f :: "real \<Rightarrow> real \<Rightarrow> real \<Rightarrow> int \<Rightarrow> real \<Rightarrow> real \<Rightarrow> (int \<times> real) option"
    and u h m c g t y
  assume IH: "\<And>u h m c g t y. f u h m c g t = Some y \<Longrightarrow> centered_gap_loop64 u h m c g t = Some y"
    and body: "(if m < of_int c
      then if 30 < fadd t 1
           then Some (max 1 \<lfloor>fdiv (fadd u (fadd t 1)) (fadd h (fadd t 1))\<rfloor>, fadd t 1)
           else f u h m (max 1 \<lfloor>fdiv (fadd u (fadd t 1)) (fadd h (fadd t 1))\<rfloor>) (fadd t 1) (fadd t 1)
      else Some (c, g)) = Some y"
  show "centered_gap_loop64 u h m c g t = Some y"
  proof (cases "m < of_int c")
    case False
    with body show ?thesis by (subst centered_gap_loop64.simps) simp
  next
    case True
    show ?thesis
    proof (cases "30 < fadd t 1")
      case big: True
      with True body show ?thesis by (subst centered_gap_loop64.simps) simp
    next
      case small: False
      with True body
      have "f u h m (max 1 \<lfloor>fdiv (fadd u (fadd t 1)) (fadd h (fadd t 1))\<rfloor>) (fadd t 1) (fadd t 1) = Some y"
        by simp
      from IH [OF this] True small show ?thesis
        by (subst centered_gap_loop64.simps) simp
    qed
  qed
qed

lemma vertical_gap_loop64_eq:
  "vertical_gap_loop64 u h m c g t = centered_gap_loop64 u h m c g t"
proof (cases "centered_gap_loop64 u h m c g t")
  case (Some y)
  then show ?thesis by (simp add: loop64_cv)
next
  case None
  show ?thesis
  proof (cases "vertical_gap_loop64 u h m c g t")
    case (Some y)
    from loop64_vc [OF this] None show ?thesis by simp
  next
    case n: None
    with None show ?thesis by simp
  qed
qed

lemma vertical64_from_centered:
  "computeVerticalPositions64 S F E G C =
     map_option (\<lambda>c. \<lparr>positions = map (\<lambda>i. fadd (fadd E (fdiv F 2))
                                             (fmul (real i) (fadd F (gapBetween c))))
                                     [0 ..< length (positions c)],
                       gapBetween = gapBetween c\<rparr>)
       (computeCenteredAxisPositions64 S F E G C)"
proof (cases "fsub S (fmul 2 E) < F")
  case True
  then show ?thesis
    by (simp add: computeVerticalPositions64_def computeCenteredAxisPositions64_def)
next
  case False
  let ?u = "fsub S (fmul 2 E)"
  let ?m = "max 1 \<lfloor>fdiv (fadd ?u G) (fadd F G)\<rfloor>"
  let ?X = "case C of None \<Rightarrow> Some (?m, G)
        | Some cap \<Rightarrow> if of_int ?m > cap then centered_gap_loop64 ?u F cap ?m G G else Some (?m, G)"
  show ?thesis
  proof (cases ?X)
    case None
    with False show ?thesis
      unfolding computeVerticalPositions64_def computeCenteredAxisPositions64_def Let_def
        vertical_gap_loop64_eq
      by (simp only: if_False option.case map_option_case)
  next
    case (Some ng)
    obtain n g where "ng = (n, g)" by (cases ng)
    with Some have X: "?X = Some (n, g)" by simp
    show ?thesis
      unfolding computeVerticalPositions64_def computeCenteredAxisPositions64_def Let_def
        vertical_gap_loop64_eq X
      using False by (simp only: if_False option.case prod.case) simp
  qed
qed

lemma centered64_positions:
  "map_option positions (computeCenteredAxisPositions64 S F E G C) =
     map_option (\<lambda>c. map (\<lambda>i. fadd (fadd (fadd (fdiv (- S) 2) E) (fdiv F 2))
                                   (fmul (real i) (fadd F (gapBetween c))))
                          [0 ..< length (positions c)])
       (computeCenteredAxisPositions64 S F E G C)"
proof (cases "fsub S (fmul 2 E) < F")
  case True
  then show ?thesis
    by (simp add: computeCenteredAxisPositions64_def)
next
  case False
  let ?u = "fsub S (fmul 2 E)"
  let ?m = "max 1 \<lfloor>fdiv (fadd ?u G) (fadd F G)\<rfloor>"
  let ?X = "case C of None \<Rightarrow> Some (?m, G)
        | Some cap \<Rightarrow> if of_int ?m > cap then centered_gap_loop64 ?u F cap ?m G G else Some (?m, G)"
  show ?thesis
  proof (cases ?X)
    case None
    with False show ?thesis
      unfolding computeCenteredAxisPositions64_def Let_def
      by (simp only: if_False option.case map_option_case)
  next
    case (Some ng)
    obtain n g where "ng = (n, g)" by (cases ng)
    with Some have X: "?X = Some (n, g)" by simp
    show ?thesis
      unfolding computeCenteredAxisPositions64_def Let_def X
      using False by (simp only: if_False option.case prod.case) simp
  qed
qed

subsection \<open>Termination and shape of the result\<close>

lemma fl_31: "fl 31 = 31"
  using fl_of_int [of 31] by simp

lemma fadd_one_progress:
  assumes "- (2 ^ 52) \<le> t" and "t < 2 ^ 52"
  shows "of_int \<lfloor>t\<rfloor> + 1 \<le> fadd t 1"
proof -
  define k where "k = \<lfloor>t\<rfloor>"
  have lo: "- (2 ^ 52) \<le> k" using assms(1) unfolding k_def by (simp add: le_floor_iff)
  have hi: "k < 2 ^ 52" using assms(2) unfolding k_def by (simp add: floor_less_iff)
  from lo hi have b: "\<bar>k + 1\<bar> < 2 ^ 53" by simp
  have "of_int (k + 1) \<le> t + 1" unfolding k_def by simp
  from fl_mono [OF this] have "of_int k + 1 \<le> fadd t 1"
    unfolding fadd_def fl_of_int [OF b] by simp
  then show ?thesis unfolding k_def .
qed

lemma fadd_one_big:
  assumes "30 \<le> t"
  shows "30 < fadd t 1"
proof -
  from assms have "31 \<le> t + 1" by simp
  from fl_mono [OF this] show ?thesis unfolding fadd_def fl_31 by simp
qed

lemma centered_gap_loop64_total:
  assumes "- (2 ^ 52) \<le> t" and "1 \<le> c"
  shows "\<exists>n g. centered_gap_loop64 u h m c g0 t = Some (n, g) \<and> 1 \<le> n"
  using assms
proof (induction "nat (30 - \<lfloor>t\<rfloor>)" arbitrary: t c g0 rule: less_induct)
  case less
  show ?case
  proof (cases "m < of_int c")
    case False
    then show ?thesis using less.prems
      by (subst centered_gap_loop64.simps) simp
  next
    case True
    let ?n = "max 1 \<lfloor>fdiv (fadd u (fadd t 1)) (fadd h (fadd t 1))\<rfloor>"
    show ?thesis
    proof (cases "30 < fadd t 1")
      case big: True
      with True show ?thesis
        by (subst centered_gap_loop64.simps) simp
    next
      case small: False
      then have t30: "t < 30" using fadd_one_big [of t] by linarith
      then have t52: "t < 2 ^ 52" by simp
      from fadd_one_progress [OF less.prems(1) t52]
      have pr: "of_int \<lfloor>t\<rfloor> + 1 \<le> fadd t 1" .
      then have fl': "\<lfloor>t\<rfloor> + 1 \<le> \<lfloor>fadd t 1\<rfloor>" by (simp add: le_floor_iff)
      have f30: "\<lfloor>t\<rfloor> < 30" using t30 by (simp add: floor_less_iff)
      have dec: "nat (30 - \<lfloor>fadd t 1\<rfloor>) < nat (30 - \<lfloor>t\<rfloor>)"
        using fl' f30 by linarith
      have lo: "- (2 ^ 52) \<le> fadd t 1"
      proof -
        have "t \<le> fadd t 1" using pr by linarith
        with less.prems(1) show ?thesis by linarith
      qed
      have c1: "1 \<le> ?n" by simp
      from less.hyps [OF dec lo c1, of "fadd t 1"]
      obtain n g where "centered_gap_loop64 u h m ?n (fadd t 1) (fadd t 1) = Some (n, g)"
        and "1 \<le> n" by blast
      with True small show ?thesis
        by (subst centered_gap_loop64.simps) simp
    qed
  qed
qed

lemma centered_gap_loop64_gap:
  assumes "centered_gap_loop64 u h m c g0 t = Some (n, g)"
    and "fl G \<le> fl g0" and "G \<le> t" and G0: "0 \<le> G"
  shows "fl G \<le> fl g"
proof -
  have "fl G \<le> fl g0 \<longrightarrow> G \<le> t \<longrightarrow> fl G \<le> fl (snd (n, g))"
  proof (rule centered_gap_loop64.raw_induct
      [where P = "\<lambda>u h m c g0 t y. fl G \<le> fl g0 \<longrightarrow> G \<le> t \<longrightarrow> fl G \<le> fl (snd y)", OF _ assms(1)])
    fix f :: "real \<Rightarrow> real \<Rightarrow> real \<Rightarrow> int \<Rightarrow> real \<Rightarrow> real \<Rightarrow> (int \<times> real) option"
      and u h m c g0 t y
    assume IH: "\<And>u h m c g0 t y. f u h m c g0 t = Some y \<Longrightarrow>
        fl G \<le> fl g0 \<longrightarrow> G \<le> t \<longrightarrow> fl G \<le> fl (snd y)"
      and body: "(if m < of_int c
        then if 30 < fadd t 1
             then Some (max 1 \<lfloor>fdiv (fadd u (fadd t 1)) (fadd h (fadd t 1))\<rfloor>, fadd t 1)
             else f u h m (max 1 \<lfloor>fdiv (fadd u (fadd t 1)) (fadd h (fadd t 1))\<rfloor>) (fadd t 1) (fadd t 1)
        else Some (c, g0)) = Some y"
    show "fl G \<le> fl g0 \<longrightarrow> G \<le> t \<longrightarrow> fl G \<le> fl (snd y)"
    proof (intro impI)
      assume g0: "fl G \<le> fl g0" and t: "G \<le> t"
      have step: "fl G \<le> fl (fadd t 1)"
      proof -
        from t have "G \<le> t + 1" by simp
        from fl_mono [OF this] show ?thesis by (simp add: fadd_def fl_idem)
      qed
      show "fl G \<le> fl (snd y)"
      proof (cases "m < of_int c")
        case False
        with body g0 show ?thesis by auto
      next
        case True
        show ?thesis
        proof (cases "30 < fadd t 1")
          case big: True
          with True body step show ?thesis by auto
        next
          case small: False
          with True body
          have r: "f u h m (max 1 \<lfloor>fdiv (fadd u (fadd t 1)) (fadd h (fadd t 1))\<rfloor>) (fadd t 1) (fadd t 1) = Some y"
            by simp
          have t': "G \<le> fadd t 1"
          proof -
            have lo: "- (2 ^ 52) \<le> t" using G0 t by simp
            have "t < 30" using small fadd_one_big [of t] by linarith
            then have "t < 2 ^ 52" by simp
            from fadd_one_progress [OF lo this] have "t \<le> fadd t 1" by linarith
            with t show ?thesis by linarith
          qed
          from IH [OF r] step t' show ?thesis by blast
        qed
      qed
    qed
  qed
  with assms(2,3) show ?thesis by simp
qed

lemma centered64_shape_gap:
  assumes F0: "0 \<le> F" and G0: "0 \<le> G" and fit: "F \<le> fsub S (fmul 2 E)"
  shows "\<exists>r. computeCenteredAxisPositions64 S F E G C = Some r \<and>
           positions r \<noteq> [] \<and>
           hd (positions r) = fadd (fadd (fdiv (- S) 2) E) (fdiv F 2) \<and>
           positions r =
             map (\<lambda>i. fadd (fadd (fadd (fdiv (- S) 2) E) (fdiv F 2))
                            (fmul (real i) (fadd F (gapBetween r))))
                 [0 ..< length (positions r)] \<and>
           (1 < length (positions r) \<longrightarrow> fl G \<le> gapBetween r)"
proof -
  let ?u = "fsub S (fmul 2 E)"
  let ?m = "max 1 \<lfloor>fdiv (fadd ?u G) (fadd F G)\<rfloor>"
  let ?X = "case C of None \<Rightarrow> Some (?m, G)
        | Some cap \<Rightarrow> if of_int ?m > cap then centered_gap_loop64 ?u F cap ?m G G else Some (?m, G)"
  have G52: "- (2 ^ 52) \<le> G" using G0 by simp
  have m1: "1 \<le> ?m" by simp
  have "\<exists>n g. ?X = Some (n, g) \<and> 1 \<le> n \<and> fl G \<le> fl g"
  proof (cases C)
    case None
    then show ?thesis by simp
  next
    case (Some cap)
    show ?thesis
    proof (cases "of_int ?m > cap")
      case True
      from centered_gap_loop64_total [OF G52 m1, of ?u F cap G]
      obtain n g where l: "centered_gap_loop64 ?u F cap ?m G G = Some (n, g)" and n: "1 \<le> n"
        by blast
      from centered_gap_loop64_gap [OF l _ _ G0] have "fl G \<le> fl g" by simp
      with Some True l n show ?thesis by simp
    next
      case False
      with Some show ?thesis by simp
    qed
  qed
  then obtain n g where X: "?X = Some (n, g)" and n1: "1 \<le> n" and gG: "fl G \<le> fl g" by blast
  define L where "L = max 0 (fsub ?u (fadd (fmul (of_int n) F) (fmul (fsub (of_int n) 1) g)))"
  define K where "K = (if n > 1 then fadd g (fdiv L (fsub (of_int n) 1)) else 0)"
  define st where "st = fadd (fadd (fdiv (- S) 2) E) (fdiv F 2)"
  have r: "computeCenteredAxisPositions64 S F E G C =
      Some \<lparr>positions = map (\<lambda>i. fadd st (fmul (real i) (fadd F K))) [0 ..< nat n],
            gapBetween = K\<rparr>"
    unfolding computeCenteredAxisPositions64_def Let_def X K_def L_def st_def
    using fit by (simp only: if_False option.case prod.case not_less [symmetric])
  from n1 have pos: "0 < nat n" by simp
  then have up: "[0 ..< nat n] = 0 # [Suc 0 ..< nat n]" by (rule upt_conv_Cons)
  have st_fl: "fadd st 0 = st"
    unfolding st_def fadd_def by (simp add: fl_idem)
  have hd0: "hd (map (\<lambda>i. fadd st (fmul (real i) (fadd F K))) [0 ..< nat n]) = st"
    unfolding up by (simp add: fmul_zero_left st_fl)
  have gap: "fl G \<le> K" if "1 < n"
  proof -
    have L0: "0 \<le> L" by (simp add: L_def)
    have "(0::real) \<le> of_int n - 1" using that by simp
    from fl_nonneg [OF this] have d0: "0 \<le> fsub (of_int n) 1" by (simp add: fsub_def)
    have "0 \<le> L / fsub (of_int n) 1" using L0 d0 by simp
    from fl_nonneg [OF this] have q0: "0 \<le> fdiv L (fsub (of_int n) 1)" by (simp add: fdiv_def)
    then have "g \<le> g + fdiv L (fsub (of_int n) 1)" by simp
    from fl_mono [OF this] have "fl g \<le> fadd g (fdiv L (fsub (of_int n) 1))"
      by (simp add: fadd_def)
    with gG that show ?thesis by (simp add: K_def)
  qed
  show ?thesis
    unfolding r st_def [symmetric] using pos hd0 gap by simp
qed

lemma fl_6: "fmul 2 3 = 6"
  using fl_of_int [of 6] by (simp add: fmul_def)

lemma fl_34: "fsub 40 6 = 34"
  using fl_of_int [of 34] by (simp add: fsub_def)

subsection \<open>Rounding errors with the constants of the program\<close>

text \<open>
  With the constants of the program and a span from 20 to 256 every intermediate result
  of the solver is below 1024 in magnitude, so each operation is within \<open>2^-43\<close> of the
  exact result. The count is at most 26, the gap an integer from 4 to 31, and the
  errors add up to less than half a footprint.
\<close>

lemma centered_gap_loop64_inv:
  assumes l: "centered_gap_loop64 u h m c g0 t = Some (n, g)"
    and t: "t = of_int k" "4 \<le> k" "k \<le> 30"
    and g0: "g0 = of_int k0" "4 \<le> k0" "k0 \<le> 31"
    and c: "1 \<le> c" "c = 1 \<or> of_int c \<le> fdiv (fadd u g0) (fadd h g0)"
  shows "\<exists>j. g = of_int j \<and> 4 \<le> j \<and> j \<le> 31 \<and> 1 \<le> n \<and>
           (n = 1 \<or> of_int n \<le> fdiv (fadd u g) (fadd h g))"
proof -
  let ?Q = "\<lambda>u h (y :: int \<times> real). \<exists>j. snd y = of_int j \<and> 4 \<le> j \<and> j \<le> 31 \<and> 1 \<le> fst y \<and>
           (fst y = 1 \<or> of_int (fst y) \<le> fdiv (fadd u (snd y)) (fadd h (snd y)))"
  let ?P = "\<lambda>u h (m :: real) c g0 t y.
      (\<forall>k k0. t = of_int k \<and> 4 \<le> k \<and> k \<le> 30 \<and> g0 = of_int k0 \<and> 4 \<le> k0 \<and> k0 \<le> 31 \<and>
         1 \<le> c \<and> (c = 1 \<or> of_int c \<le> fdiv (fadd u g0) (fadd h g0)) \<longrightarrow> ?Q u h y)"
  have "?P u h m c g0 t (n, g)"
  proof (rule centered_gap_loop64.raw_induct [where P = ?P, OF _ l])
    fix f :: "real \<Rightarrow> real \<Rightarrow> real \<Rightarrow> int \<Rightarrow> real \<Rightarrow> real \<Rightarrow> (int \<times> real) option"
      and u h m c g0 t y
    assume IH: "\<And>u h m c g0 t y. f u h m c g0 t = Some y \<Longrightarrow> ?P u h m c g0 t y"
      and body: "(if m < of_int c
        then if 30 < fadd t 1
             then Some (max 1 \<lfloor>fdiv (fadd u (fadd t 1)) (fadd h (fadd t 1))\<rfloor>, fadd t 1)
             else f u h m (max 1 \<lfloor>fdiv (fadd u (fadd t 1)) (fadd h (fadd t 1))\<rfloor>) (fadd t 1) (fadd t 1)
        else Some (c, g0)) = Some y"
    show "?P u h m c g0 t y"
    proof (intro allI impI)
      fix k k0
      assume a: "t = of_int k \<and> 4 \<le> k \<and> k \<le> 30 \<and> g0 = of_int k0 \<and> 4 \<le> k0 \<and> k0 \<le> 31 \<and>
         1 \<le> c \<and> (c = 1 \<or> of_int c \<le> fdiv (fadd u g0) (fadd h g0))"
      then have b: "\<bar>k + 1\<bar> < 2 ^ 53" by simp
      have "t + 1 = of_int (k + 1)" using a by simp
      then have t1: "fadd t 1 = of_int (k + 1)"
        unfolding fadd_def using fl_of_int [OF b] by simp
      let ?n = "max 1 \<lfloor>fdiv (fadd u (fadd t 1)) (fadd h (fadd t 1))\<rfloor>"
      have n1: "1 \<le> ?n" by simp
      have nq: "?n = 1 \<or> of_int ?n \<le> fdiv (fadd u (fadd t 1)) (fadd h (fadd t 1))"
        by (simp add: max_def)
      show "?Q u h y"
      proof (cases "m < of_int c")
        case False
        with body have "y = (c, g0)" by simp
        with a show ?thesis by auto
      next
        case True
        show ?thesis
        proof (cases "30 < fadd t 1")
          case big: True
          with True body have y: "y = (?n, fadd t 1)" by simp
          have "snd y = of_int (k + 1) \<and> 4 \<le> k + 1 \<and> k + 1 \<le> 31 \<and> 1 \<le> fst y \<and>
             (fst y = 1 \<or> of_int (fst y) \<le> fdiv (fadd u (snd y)) (fadd h (snd y)))"
            unfolding y fst_conv snd_conv using a t1 n1 nq by simp
          then show ?thesis by blast
        next
          case small: False
          with True body
          have r: "f u h m ?n (fadd t 1) (fadd t 1) = Some y" by simp
          from small t1 have "k + 1 \<le> 30" by simp
          with a t1 n1 nq have "fadd t 1 = of_int (k + 1) \<and> 4 \<le> k + 1 \<and> k + 1 \<le> 30 \<and>
             fadd t 1 = of_int (k + 1) \<and> 4 \<le> k + 1 \<and> k + 1 \<le> 31 \<and>
             1 \<le> ?n \<and> (?n = 1 \<or> of_int ?n \<le> fdiv (fadd u (fadd t 1)) (fadd h (fadd t 1)))"
            by simp
          with IH [OF r] show ?thesis by blast
        qed
      qed
    qed
  qed
  with t g0 c show ?thesis by auto
qed

lemma constants64_layout:
  assumes S: "20 \<le> S" "S \<le> 256"
  shows "\<exists>r. computeCenteredAxisPositions64 S HOLE_SPAN_PLANAR64 3 4 C = Some r \<and>
     positions r \<noteq> [] \<and>
     (\<forall>p \<in> set (positions r). - S / 2 + 3 \<le> p \<and> p \<le> S / 2 - 3) \<and>
     (\<forall>i. Suc i < length (positions r) \<longrightarrow>
        HOLE_SPAN_PLANAR64 + 4 - 1 / 2 ^ 40 \<le> positions r ! Suc i - positions r ! i) \<and>
     (\<forall>i. i < length (positions r) \<longrightarrow>
        0 \<le> real i * fadd HOLE_SPAN_PLANAR64 (gapBetween r) \<and>
        real i * fadd HOLE_SPAN_PLANAR64 (gapBetween r) \<le> 250)"
proof -
  define H where "H = HOLE_SPAN_PLANAR64"
  define d :: real where "d = 1 / 2 ^ 43"
  have d0: "0 < d" and d1: "d \<le> 1 / 1000000" and d8: "8 * d = 1 / 2 ^ 40"
    by (simp_all add: d_def)
  have H7: "7 < H" and H8: "H < 8" using H_bounds by (simp_all add: H_def)
  have near_hi: "fl x \<le> x + d" and near_lo: "x - d \<le> fl x" if "\<bar>x\<bar> \<le> 1024" for x
    using fl_near [OF that] by (simp_all add: d_def)
  define u where "u = fsub S (fmul 2 3)"
  have u_eq: "u = fl (S - 6)" by (simp add: u_def fl_6 fsub_def)
  have u14: "14 \<le> u" and u250: "u \<le> 250"
    using fl_between [of 14 "S - 6" 250] S unfolding u_eq by simp_all
  have u_hi: "u \<le> S - 6 + d" and u_lo: "S - 6 - d \<le> u"
    using near_hi [of "S - 6"] near_lo [of "S - 6"] S unfolding u_eq by simp_all
  have fit: "H \<le> u" using H8 u14 by simp
  (* The count and the gap. *)
  let ?m = "max 1 \<lfloor>fdiv (fadd u 4) (fadd H 4)\<rfloor>"
  let ?X = "case C of None \<Rightarrow> Some (?m, 4)
        | Some cap \<Rightarrow> if of_int ?m > cap then centered_gap_loop64 u H cap ?m 4 4 else Some (?m, 4)"
  have m1: "1 \<le> ?m" by simp
  have mq: "?m = 1 \<or> of_int ?m \<le> fdiv (fadd u 4) (fadd H 4)" by (simp add: max_def)
  have init: "\<exists>j. (4::real) = of_int j \<and> 4 \<le> j \<and> j \<le> 31 \<and> 1 \<le> ?m \<and>
      (?m = 1 \<or> of_int ?m \<le> fdiv (fadd u 4) (fadd H 4))"
    using mq by (intro exI [of _ 4]) simp
  have "\<exists>n g j. ?X = Some (n, g) \<and> g = of_int j \<and> 4 \<le> j \<and> j \<le> 31 \<and> 1 \<le> n \<and>
      (n = 1 \<or> of_int n \<le> fdiv (fadd u g) (fadd H g))"
  proof (cases C)
    case None
    with init show ?thesis by simp
  next
    case (Some cap)
    show ?thesis
    proof (cases "of_int ?m > cap")
      case False
      with Some init show ?thesis by simp
    next
      case True
      have G52: "- (2 ^ 52) \<le> (4::real)" by simp
      from centered_gap_loop64_total [OF G52 m1, of u H cap 4]
      obtain n g where l: "centered_gap_loop64 u H cap ?m 4 4 = Some (n, g)" by blast
      have "\<exists>j. g = of_int j \<and> 4 \<le> j \<and> j \<le> 31 \<and> 1 \<le> n \<and>
           (n = 1 \<or> of_int n \<le> fdiv (fadd u g) (fadd H g))"
        by (rule centered_gap_loop64_inv [OF l, of 4 4]) (use mq in simp_all)
      with Some True l show ?thesis by simp
    qed
  qed
  then obtain n g j where X: "?X = Some (n, g)" and gj: "g = of_int j" and j4: "4 \<le> j"
    and j31: "j \<le> 31" and n1: "1 \<le> n"
    and nq: "n = 1 \<or> of_int n \<le> fdiv (fadd u g) (fadd H g)"
    by blast
  have g4: "4 \<le> g" and g31: "g \<le> 31" using j4 j31 by (simp_all add: gj)
  (* The count is at most 26, and n (H + g) <= u + g up to rounding. *)
  define a where "a = fadd u g"
  define b where "b = fadd H g"
  have a_rng: "18 \<le> a" "a \<le> 281"
    using fl_between [of 18 "u + g" 281] u14 u250 g4 g31 unfolding a_def fadd_def by simp_all
  have a_hi: "a \<le> u + g + d"
    using near_hi [of "u + g"] u14 u250 g4 g31 unfolding a_def fadd_def by simp
  have b_rng: "11 \<le> b" "b \<le> 39"
    using fl_between [of 11 "H + g" 39] H7 H8 g4 g31 unfolding b_def fadd_def by simp_all
  have b_lo: "H + g - d \<le> b"
    using near_lo [of "H + g"] H7 H8 g4 g31 unfolding b_def fadd_def by simp
  have b0: "0 < b" using b_rng by simp
  have ab0: "0 \<le> a / b" using a_rng b0 by simp
  have ab26: "a / b \<le> 26"
  proof -
    have "a \<le> 26 * b" using a_rng b_rng by simp
    then show ?thesis using b0 by (simp add: pos_divide_le_eq)
  qed
  have q26: "fdiv a b \<le> 26"
    using fl_between(2) [of 0 "a / b" 26] ab0 ab26 unfolding fdiv_def by simp
  have q_hi: "fdiv a b \<le> a / b + d"
    using near_hi [of "a / b"] ab0 ab26 unfolding fdiv_def by simp
  have n26: "n \<le> 26"
  proof -
    from nq show ?thesis
    proof
      assume "n = 1" then show ?thesis by simp
    next
      assume "of_int n \<le> fdiv (fadd u g) (fadd H g)"
      with q26 have "of_int n \<le> (26::real)" unfolding a_def b_def by linarith
      then show ?thesis by linarith
    qed
  qed
  have rn1: "(1::real) \<le> of_int n" and rn26: "of_int n \<le> (26::real)"
    using n1 n26 by simp_all
  have key: "of_int n * (H + g) \<le> u + g + 66 * d"
  proof -
    from nq show ?thesis
    proof
      assume "n = 1"
      with fit d0 show ?thesis by simp
    next
      assume "of_int n \<le> fdiv (fadd u g) (fadd H g)"
      with q_hi have "of_int n \<le> a / b + d" unfolding a_def b_def by linarith
      then have "of_int n * b \<le> (a / b + d) * b"
        using b0 by (intro mult_right_mono) simp_all
      also have "\<dots> = a + d * b" using b0 by (simp add: field_simps)
      finally have nb: "of_int n * b \<le> a + d * b" .
      have db: "d * b \<le> d * 39" using b_rng d0 by (intro mult_left_mono) simp_all
      have "of_int n * (H + g) \<le> of_int n * (b + d)"
        using b_lo rn1 by (intro mult_left_mono) simp_all
      also have "\<dots> = of_int n * b + of_int n * d" by (simp add: algebra_simps)
      finally have e: "of_int n * (H + g) \<le> of_int n * b + of_int n * d" .
      have nd: "of_int n * d \<le> 26 * d" using rn26 d0 by (intro mult_right_mono) simp_all
      from e nb db nd a_hi show ?thesis by linarith
    qed
  qed
  (* The gap between the holes and the step. *)
  define N1 :: real where "N1 = of_int n - 1"
  have N1_0: "0 \<le> N1" and N1_25: "N1 \<le> 25" using rn1 rn26 by (simp_all add: N1_def)
  define L where "L = max 0 (fsub u (fadd (fmul (of_int n) H) (fmul (fsub (of_int n) 1) g)))"
  define K where "K = (if n > 1 then fadd g (fdiv L (fsub (of_int n) 1)) else 0)"
  define s where "s = fadd H K"
  define st where "st = fadd (fadd (fdiv (- S) 2) 3) (fdiv H 2)"
  have flg: "fl g = g" unfolding gj using j4 j31 by (intro fl_of_int) simp
  have K_bounds: "g \<le> K \<and> K \<le> 300 \<and> N1 * K \<le> N1 * g + (u - (of_int n * H + N1 * g)) + 119 * d"
    if n2: "1 < n"
  proof -
    have N1_1: "1 \<le> N1" using n2 by (simp add: N1_def)
    have bn: "\<bar>n - 1\<bar> < 2 ^ 53" using n1 n26 by simp
    have fs: "fsub (of_int n) 1 = N1"
    proof -
      have "of_int n - (1::real) = of_int (n - 1)" by simp
      then show ?thesis unfolding fsub_def N1_def using fl_of_int [OF bn] by simp
    qed
    have nj0: "0 \<le> (n - 1) * j" using n1 j4 by simp
    have nj: "(n - 1) * j \<le> 25 * 31"
      using n1 n26 j4 j31 by (intro mult_mono) simp_all
    have bnj: "\<bar>(n - 1) * j\<bar> < 2 ^ 53" using nj0 nj by simp
    have N1g: "N1 * g = of_int ((n - 1) * j)" by (simp add: N1_def gj)
    have fm: "fmul N1 g = N1 * g"
      unfolding fmul_def N1g by (rule fl_of_int [OF bnj])
    have N1g_rng: "0 \<le> N1 * g" "N1 * g \<le> 775"
    proof -
      show "0 \<le> N1 * g" using N1_0 g4 by simp
      have "of_int ((n - 1) * j) \<le> (of_int (25 * 31) :: real)"
        using nj by (simp only: of_int_le_iff)
      then show "N1 * g \<le> 775" unfolding N1g by simp
    qed
    have nH_rng: "0 \<le> of_int n * H" "of_int n * H \<le> 208"
    proof -
      show "0 \<le> of_int n * H" using rn1 H7 by simp
      have "of_int n * H \<le> 26 * 8" using rn1 rn26 H7 H8 by (intro mult_mono) simp_all
      then show "of_int n * H \<le> 208" by simp
    qed
    define nH where "nH = fmul (of_int n) H"
    have nH_hi: "nH \<le> of_int n * H + d" and nH_lo: "of_int n * H - d \<le> nH"
      using near_hi [of "of_int n * H"] near_lo [of "of_int n * H"] nH_rng
      unfolding nH_def fmul_def by simp_all
    define B where "B = fadd nH (N1 * g)"
    define Bs where "Bs = of_int n * H + N1 * g"
    have Bs_eq: "Bs = of_int n * (H + g) - g" by (simp add: Bs_def N1_def algebra_simps)
    have Bs_hi: "Bs \<le> u + 66 * d" using key g4 unfolding Bs_eq by linarith
    have Bs_lo: "0 \<le> Bs" using nH_rng N1g_rng by (simp add: Bs_def)
    have sum_rng: "\<bar>nH + N1 * g\<bar> \<le> 1024"
      using nH_hi nH_lo nH_rng N1g_rng d0 d1 by simp
    have B_hi: "B \<le> Bs + 2 * d" and B_lo: "Bs - 2 * d \<le> B"
      using near_hi [OF sum_rng] near_lo [OF sum_rng] nH_hi nH_lo
      unfolding B_def fadd_def Bs_def by linarith+
    have diff_rng: "\<bar>u - B\<bar> \<le> 1024"
      using B_hi B_lo Bs_hi Bs_lo u14 u250 d0 d1 by simp
    define D where "D = fsub u B"
    have D_hi: "D \<le> u - Bs + 3 * d"
      using near_hi [OF diff_rng] B_lo unfolding D_def fsub_def by linarith
    have L_eq: "L = max 0 D"
      unfolding L_def D_def B_def nH_def fs fm ..
    have L0: "0 \<le> L" unfolding L_eq by simp
    have L_hi: "L \<le> u - Bs + 69 * d"
      unfolding L_eq using D_hi Bs_hi d0 by (simp add: max_def)
    have L251: "L \<le> 251" using L_hi Bs_lo u250 d0 d1 by linarith
    define x where "x = fdiv L N1"
    have q0: "0 \<le> L / N1" using L0 N1_1 by simp
    have q251: "L / N1 \<le> 251"
    proof -
      have "L \<le> 251 * N1" using L251 N1_1 L0 by simp
      then show ?thesis using N1_1 by (simp add: pos_divide_le_eq)
    qed
    have x0: "0 \<le> x" using fl_nonneg [OF q0] by (simp add: x_def fdiv_def)
    have x_hi: "x \<le> L / N1 + d"
      using near_hi [of "L / N1"] q0 q251 unfolding x_def fdiv_def by simp
    have K_eq: "K = fadd g x" using n2 by (simp add: K_def x_def fs)
    have gx_rng: "\<bar>g + x\<bar> \<le> 1024" using g4 g31 x0 x_hi q251 d0 d1 by simp
    have K_hi: "K \<le> g + L / N1 + 2 * d"
      using near_hi [OF gx_rng] x_hi unfolding K_eq fadd_def by linarith
    have K_lo: "g \<le> K"
    proof -
      have "g \<le> g + x" using x0 by simp
      from fl_mono [OF this] show ?thesis unfolding K_eq fadd_def flg .
    qed
    have K300: "K \<le> 300" using K_hi g31 q251 d0 d1 by linarith
    have "N1 * K \<le> N1 * (g + L / N1 + 2 * d)"
      using K_hi N1_0 by (intro mult_left_mono) simp_all
    also have "\<dots> = N1 * g + L + N1 * (2 * d)"
      using N1_1 by (simp add: field_simps)
    finally have e: "N1 * K \<le> N1 * g + L + N1 * (2 * d)" .
    have "N1 * (2 * d) \<le> 25 * (2 * d)" using N1_25 d0 by (intro mult_right_mono) simp_all
    with e L_hi have "N1 * K \<le> N1 * g + (u - Bs) + 119 * d" by linarith
    with K_lo K300 show ?thesis unfolding Bs_def by simp
  qed
  have K0: "0 \<le> K" and K300: "K \<le> 300"
  proof -
    show "0 \<le> K"
    proof (cases "1 < n")
      case True
      with K_bounds g4 show ?thesis by linarith
    next
      case False
      then show ?thesis by (simp add: K_def)
    qed
    show "K \<le> 300"
    proof (cases "1 < n")
      case True
      with K_bounds show ?thesis by linarith
    next
      case False
      then show ?thesis by (simp add: K_def)
    qed
  qed
  have HK_rng: "\<bar>H + K\<bar> \<le> 1024" using H7 H8 K0 K300 by simp
  have s_hi: "s \<le> H + K + d" and s_lo: "H + K - d \<le> s"
    using near_hi [OF HK_rng] near_lo [OF HK_rng] unfolding s_def fadd_def by simp_all
  have s0: "0 \<le> s" using s_lo H7 K0 d1 by linarith
  have top: "N1 * s \<le> u - H + 144 * d"
  proof (cases "1 < n")
    case False
    with n1 have "N1 = 0" by (simp add: N1_def)
    with fit d0 show ?thesis by simp
  next
    case True
    from K_bounds [OF True]
    have NK: "N1 * K \<le> N1 * g + (u - (of_int n * H + N1 * g)) + 119 * d" by simp
    have "N1 * s \<le> N1 * (H + K + d)"
      using s_hi N1_0 by (intro mult_left_mono) simp_all
    also have "\<dots> = N1 * H + N1 * K + N1 * d" by (simp add: algebra_simps)
    finally have e: "N1 * s \<le> N1 * H + N1 * K + N1 * d" .
    have Nd: "N1 * d \<le> 25 * d" using N1_25 d0 by (intro mult_right_mono) simp_all
    have NH: "N1 * H = of_int n * H - H" by (simp add: N1_def algebra_simps)
    from e NK Nd NH show ?thesis by linarith
  qed
  (* The start and the positions. *)
  have st_hi: "st \<le> - S / 2 + 3 + H / 2 + 4 * d" and st_lo: "- S / 2 + 3 + H / 2 - 4 * d \<le> st"
  proof -
    define a1 where "a1 = fdiv (- S) 2"
    define a2 where "a2 = fadd a1 3"
    define h2 where "h2 = fdiv H 2"
    have r1: "\<bar>- S / 2\<bar> \<le> 1024" using S by simp
    have a1_hi: "a1 \<le> - S / 2 + d" and a1_lo: "- S / 2 - d \<le> a1"
      using near_hi [OF r1] near_lo [OF r1] unfolding a1_def fdiv_def by simp_all
    have r2: "\<bar>a1 + 3\<bar> \<le> 1024" using a1_hi a1_lo S d1 by simp
    have a2_hi: "a2 \<le> a1 + 3 + d" and a2_lo: "a1 + 3 - d \<le> a2"
      using near_hi [OF r2] near_lo [OF r2] unfolding a2_def fadd_def by simp_all
    have r3: "\<bar>H / 2\<bar> \<le> 1024" using H7 H8 by simp
    have h2_hi: "h2 \<le> H / 2 + d" and h2_lo: "H / 2 - d \<le> h2"
      using near_hi [OF r3] near_lo [OF r3] unfolding h2_def fdiv_def by simp_all
    have r4: "\<bar>a2 + h2\<bar> \<le> 1024"
      using a2_hi a2_lo a1_hi a1_lo h2_hi h2_lo S H7 H8 d1 by simp
    have st_eq: "st = fl (a2 + h2)" by (simp add: st_def a2_def a1_def h2_def fadd_def)
    show "st \<le> - S / 2 + 3 + H / 2 + 4 * d"
      using near_hi [OF r4] a2_hi a1_hi h2_hi unfolding st_eq by linarith
    show "- S / 2 + 3 + H / 2 - 4 * d \<le> st"
      using near_lo [OF r4] a2_lo a1_lo h2_lo unfolding st_eq by linarith
  qed
  define p where "p = (\<lambda>i. fadd st (fmul (real i) s))"
  have mi: "0 \<le> real i * s \<and> real i * s \<le> u - H + 144 * d" if "i < nat n" for i
  proof -
    have "real i \<le> N1" using that unfolding N1_def by linarith
    then have "real i * s \<le> N1 * s" using s0 by (intro mult_right_mono)
    with top s0 show ?thesis by simp
  qed
  have p_rng: "- S / 2 + 3 \<le> p i \<and> p i \<le> S / 2 - 3 \<and>
      st + real i * s - 2 * d \<le> p i \<and> p i \<le> st + real i * s + 2 * d" if "i < nat n" for i
  proof -
    from mi [OF that] have m0: "0 \<le> real i * s" and m_hi: "real i * s \<le> u - H + 144 * d"
      by simp_all
    have r1: "\<bar>real i * s\<bar> \<le> 1024" using m0 m_hi u250 H7 d1 by simp
    define m where "m = fmul (real i) s"
    have m_up: "m \<le> real i * s + d" and m_lo: "real i * s - d \<le> m"
      using near_hi [OF r1] near_lo [OF r1] unfolding m_def fmul_def by simp_all
    have r2: "\<bar>st + m\<bar> \<le> 1024"
      using st_hi st_lo m_up m_lo m0 m_hi S H7 H8 u250 d1 by simp
    have pi: "p i = fl (st + m)" by (simp add: p_def m_def fadd_def)
    have hi: "p i \<le> st + m + d" and lo: "st + m - d \<le> p i"
      using near_hi [OF r2] near_lo [OF r2] unfolding pi by simp_all
    from hi lo m_up m_lo m0 m_hi st_hi st_lo u_hi H7 d0 d1 show ?thesis by linarith
  qed
  have r: "computeCenteredAxisPositions64 S H 3 4 C =
      Some \<lparr>positions = map p [0 ..< nat n], gapBetween = K\<rparr>"
    unfolding computeCenteredAxisPositions64_def Let_def u_def [symmetric] X
      p_def s_def K_def L_def st_def
    using fit by (simp only: if_False option.case prod.case not_less [symmetric])
  have ne: "map p [0 ..< nat n] \<noteq> []" using n1 by simp
  have inside: "\<forall>q \<in> set (map p [0 ..< nat n]). - S / 2 + 3 \<le> q \<and> q \<le> S / 2 - 3"
    using p_rng by auto
  have spacing: "\<forall>i. Suc i < length (map p [0 ..< nat n]) \<longrightarrow>
      H + 4 - 1 / 2 ^ 40 \<le> map p [0 ..< nat n] ! Suc i - map p [0 ..< nat n] ! i"
  proof (intro allI impI)
    fix i assume "Suc i < length (map p [0 ..< nat n])"
    then have i: "Suc i < nat n" by simp
    then have i': "i < nat n" by simp
    from i have n2: "1 < n" by linarith
    from K_bounds [OF n2] have gK: "g \<le> K" by simp
    from p_rng [OF i] have a: "st + real (Suc i) * s - 2 * d \<le> p (Suc i)" by simp
    from p_rng [OF i'] have b: "p i \<le> st + real i * s + 2 * d" by simp
    have e: "real (Suc i) * s = real i * s + s" by (simp add: algebra_simps)
    have "H + 4 - 8 * d \<le> p (Suc i) - p i"
      using a b e s_lo gK g4 d0 by linarith
    then show "H + 4 - 1 / 2 ^ 40 \<le> map p [0 ..< nat n] ! Suc i - map p [0 ..< nat n] ! i"
      unfolding d8 using i i' by simp
  qed
  have steps: "\<forall>i. i < length (map p [0 ..< nat n]) \<longrightarrow>
      0 \<le> real i * fadd H K \<and> real i * fadd H K \<le> 250"
  proof (intro allI impI)
    fix i assume "i < length (map p [0 ..< nat n])"
    then have "i < nat n" by simp
    from mi [OF this] u250 H7 d1 show "0 \<le> real i * fadd H K \<and> real i * fadd H K \<le> 250"
      unfolding s_def by simp
  qed
  from ne inside spacing steps
  have "\<exists>r. computeCenteredAxisPositions64 S H 3 4 C = Some r \<and>
     positions r \<noteq> [] \<and>
     (\<forall>p \<in> set (positions r). - S / 2 + 3 \<le> p \<and> p \<le> S / 2 - 3) \<and>
     (\<forall>i. Suc i < length (positions r) \<longrightarrow>
        H + 4 - 1 / 2 ^ 40 \<le> positions r ! Suc i - positions r ! i) \<and>
     (\<forall>i. i < length (positions r) \<longrightarrow>
        0 \<le> real i * fadd H (gapBetween r) \<and> real i * fadd H (gapBetween r) \<le> 250)"
    unfolding r by simp
  then show ?thesis unfolding H_def .
qed

lemma vertical64_shift_bound:
  assumes S: "20 \<le> S" "S \<le> 256"
  shows "\<exists>c v. computeCenteredAxisPositions64 S HOLE_SPAN_PLANAR64 3 4 C = Some c \<and>
     computeVerticalPositions64 S HOLE_SPAN_PLANAR64 3 4 C = Some v \<and>
     length (positions v) = length (positions c) \<and>
     gapBetween v = gapBetween c \<and>
     (\<forall>i. i < length (positions c) \<longrightarrow>
        \<bar>positions v ! i - (positions c ! i + S / 2)\<bar> \<le> 1 / 2 ^ 40)"
proof -
  define H where "H = HOLE_SPAN_PLANAR64"
  define d :: real where "d = 1 / 2 ^ 43"
  have d0: "0 < d" and d1: "d \<le> 1 / 1000000" and d8: "8 * d = 1 / 2 ^ 40"
    by (simp_all add: d_def)
  have H7: "7 < H" and H8: "H < 8" using H_bounds by (simp_all add: H_def)
  have near_hi: "fl x \<le> x + d" and near_lo: "x - d \<le> fl x" if "\<bar>x\<bar> \<le> 1024" for x
    using fl_near [OF that] by (simp_all add: d_def)
  from constants64_layout [OF S, of C]
  obtain c where c: "computeCenteredAxisPositions64 S H 3 4 C = Some c"
    and steps: "\<forall>i. i < length (positions c) \<longrightarrow>
        0 \<le> real i * fadd H (gapBetween c) \<and> real i * fadd H (gapBetween c) \<le> 250"
    unfolding H_def by blast
  define s where "s = fadd H (gapBetween c)"
  define stc where "stc = fadd (fadd (fdiv (- S) 2) 3) (fdiv H 2)"
  define stv where "stv = fadd 3 (fdiv H 2)"
  define v where "v = \<lparr>positions = map (\<lambda>i. fadd stv (fmul (real i) s)) [0 ..< length (positions c)],
                          gapBetween = gapBetween c\<rparr>"
  have vv: "computeVerticalPositions64 S H 3 4 C = Some v"
    unfolding vertical64_from_centered c v_def s_def stv_def by simp
  have pc: "positions c = map (\<lambda>i. fadd stc (fmul (real i) s)) [0 ..< length (positions c)]"
    using centered64_positions [of S H 3 4 C] unfolding c stc_def s_def by simp
  define h2 where "h2 = fdiv H 2"
  have r3: "\<bar>H / 2\<bar> \<le> 1024" using H7 H8 by simp
  have h2_hi: "h2 \<le> H / 2 + d" and h2_lo: "H / 2 - d \<le> h2"
    using near_hi [OF r3] near_lo [OF r3] unfolding h2_def fdiv_def by simp_all
  have stv_hi: "stv \<le> 3 + h2 + d" and stv_lo: "3 + h2 - d \<le> stv"
  proof -
    have r: "\<bar>3 + h2\<bar> \<le> 1024" using h2_hi h2_lo H7 H8 d1 by simp
    show "stv \<le> 3 + h2 + d" "3 + h2 - d \<le> stv"
      using near_hi [OF r] near_lo [OF r] unfolding stv_def h2_def [symmetric] fadd_def by simp_all
  qed
  have stc_hi: "stc \<le> - S / 2 + 3 + h2 + 3 * d" and stc_lo: "- S / 2 + 3 + h2 - 3 * d \<le> stc"
  proof -
    define a1 where "a1 = fdiv (- S) 2"
    define a2 where "a2 = fadd a1 3"
    have r1: "\<bar>- S / 2\<bar> \<le> 1024" using S by simp
    have a1_hi: "a1 \<le> - S / 2 + d" and a1_lo: "- S / 2 - d \<le> a1"
      using near_hi [OF r1] near_lo [OF r1] unfolding a1_def fdiv_def by simp_all
    have r2: "\<bar>a1 + 3\<bar> \<le> 1024" using a1_hi a1_lo S d1 by simp
    have a2_hi: "a2 \<le> a1 + 3 + d" and a2_lo: "a1 + 3 - d \<le> a2"
      using near_hi [OF r2] near_lo [OF r2] unfolding a2_def fadd_def by simp_all
    have r4: "\<bar>a2 + h2\<bar> \<le> 1024"
      using a2_hi a2_lo a1_hi a1_lo h2_hi h2_lo S H7 H8 d1 by simp
    have st_eq: "stc = fl (a2 + h2)" by (simp add: stc_def a2_def a1_def h2_def fadd_def)
    show "stc \<le> - S / 2 + 3 + h2 + 3 * d"
      using near_hi [OF r4] a2_hi a1_hi unfolding st_eq by linarith
    show "- S / 2 + 3 + h2 - 3 * d \<le> stc"
      using near_lo [OF r4] a2_lo a1_lo unfolding st_eq by linarith
  qed
  have close: "\<bar>positions v ! i - (positions c ! i + S / 2)\<bar> \<le> 1 / 2 ^ 40"
    if i: "i < length (positions c)" for i
  proof -
    from steps i have m0: "0 \<le> real i * s" and m250: "real i * s \<le> 250"
      unfolding s_def by simp_all
    define m where "m = fmul (real i) s"
    have r1: "\<bar>real i * s\<bar> \<le> 1024" using m0 m250 by simp
    have m_up: "m \<le> real i * s + d" and m_lo: "real i * s - d \<le> m"
      using near_hi [OF r1] near_lo [OF r1] unfolding m_def fmul_def by simp_all
    have rc: "\<bar>stc + m\<bar> \<le> 1024"
      using stc_hi stc_lo h2_hi h2_lo m_up m_lo m0 m250 S H7 H8 d1 by simp
    have rv: "\<bar>stv + m\<bar> \<le> 1024"
      using stv_hi stv_lo h2_hi h2_lo m_up m_lo m0 m250 H7 H8 d1 by simp
    have ci: "positions c ! i = fl (stc + m)"
      using i by (subst pc) (simp add: m_def fadd_def)
    have vi: "positions v ! i = fl (stv + m)"
      using i by (simp add: v_def m_def fadd_def)
    have "\<bar>fl (stv + m) - (fl (stc + m) + S / 2)\<bar> \<le> 8 * d"
      using near_hi [OF rc] near_lo [OF rc] near_hi [OF rv] near_lo [OF rv]
        stc_hi stc_lo stv_hi stv_lo by linarith
    then show ?thesis unfolding ci vi d8 .
  qed
  have "length (positions v) = length (positions c)" by (simp add: v_def)
  moreover have "gapBetween v = gapBetween c" by (simp add: v_def)
  ultimately have "computeCenteredAxisPositions64 S H 3 4 C = Some c \<and>
     computeVerticalPositions64 S H 3 4 C = Some v \<and>
     length (positions v) = length (positions c) \<and>
     gapBetween v = gapBetween c \<and>
     (\<forall>i. i < length (positions c) \<longrightarrow>
        \<bar>positions v ! i - (positions c ! i + S / 2)\<bar> \<le> 1 / 2 ^ 40)"
    using c vv close by blast
  then show ?thesis unfolding H_def by blast
qed

subsection \<open>The span 113\<close>

text \<open>
  The operations of the two solvers at the span 113 with the constants of the program
  (footprint \<open>HOLE_SPAN_PLANAR\<close>, edge clearance 3, minimum gap 4, cap 12), each with
  its rounded result: the usable span 107, the count 10, the gap, the two start
  values, the step, and the first two positions.
\<close>

lemma e_2E: "fmul 2 3 = 6"
  using fl_val_ge1 [of 2 "2 * 3" "6755399441055744"]
  by (simp add: fmul_def)

lemma e_usable: "fsub 113 6 = 107"
  using fl_val_ge1 [of 6 "113 - 6" "7529455627010048"]
  by (simp add: fsub_def)

lemma e_uG: "fadd 107 4 = 111"
  using fl_val_ge1 [of 6 "107 + 4" "7810930603720704"]
  by (simp add: fadd_def)

lemma e_HG: "fadd (7961314590657215 / 1125899906842624) 4 = (194764284656683 / 17592186044416)"
  using fl_eval_ge1 [of 3 "(7961314590657215 / 1125899906842624) + 4"]
  by (simp add: fadd_def rne_def)

lemma e_quot: "fdiv 111 (194764284656683 / 17592186044416) = (5644211190070969 / 562949953421312)"
  using fl_val_ge1 [of 3 "111 / (194764284656683 / 17592186044416)" "5644211190070969"]
  by (simp add: fdiv_def)

lemma e_nH: "fmul 10 (7961314590657215 / 1125899906842624) = (4975821619160759 / 70368744177664)"
  using fl_val_ge1 [of 6 "10 * (7961314590657215 / 1125899906842624)" "4975821619160759"]
  by (simp add: fmul_def)

lemma e_n1: "fsub 10 1 = 9"
  using fl_val_ge1 [of 3 "10 - 1" "5066549580791808"]
  by (simp add: fsub_def)

lemma e_n1g: "fmul 9 4 = 36"
  using fl_val_ge1 [of 5 "9 * 4" "5066549580791808"]
  by (simp add: fmul_def)

lemma e_baseUsed: "fadd (4975821619160759 / 70368744177664) 36 = (7509096409556663 / 70368744177664)"
  using fl_val_ge1 [of 6 "(4975821619160759 / 70368744177664) + 36" "7509096409556663"]
  by (simp add: fadd_def)

lemma e_leftover: "fsub 107 (7509096409556663 / 70368744177664) = (20359217453385 / 70368744177664)"
  using fl_val_lt1 [of "107 - (7509096409556663 / 70368744177664)" 2 "5211959668066560"]
  by (simp add: fsub_def)

lemma e_share: "fdiv (20359217453385 / 70368744177664) 9 = (4632853038281387 / 144115188075855872)"
  using fl_val_lt1 [of "(20359217453385 / 70368744177664) / 9" 5 "4632853038281387"]
  by (simp add: fdiv_def)

lemma e_gap: "fadd 4 (4632853038281387 / 144115188075855872) = (4539793791732069 / 1125899906842624)"
  using fl_val_ge1 [of 2 "4 + (4632853038281387 / 144115188075855872)" "4539793791732069"]
  by (simp add: fadd_def)

lemma e_halfS: "fdiv (- 113) 2 = (- (113 / 2))"
  using fl_val_ge1 [of 5 "(- 113) / 2" "(- 7951668092076032)"]
  by (simp add: fdiv_def)

lemma e_startS: "fadd (- (113 / 2)) 3 = (- (107 / 2))"
  using fl_val_ge1 [of 5 "(- (113 / 2)) + 3" "(- 7529455627010048)"]
  by (simp add: fadd_def)

lemma e_halfH: "fdiv (7961314590657215 / 1125899906842624) 2 = (7961314590657215 / 2251799813685248)"
  using fl_val_ge1 [of 1 "(7961314590657215 / 1125899906842624) / 2" "7961314590657215"]
  by (simp add: fdiv_def)

lemma e_start_c: "fadd (- (107 / 2)) (7961314590657215 / 2251799813685248) = (- (1757968366273493 / 35184372088832))"
  using fl_val_ge1 [of 5 "(- (107 / 2)) + (7961314590657215 / 2251799813685248)" "(- 7031873465093972)"]
  by (simp add: fadd_def)

lemma e_start_v: "fadd 3 (7961314590657215 / 2251799813685248) = (229948656745515 / 35184372088832)"
  using fl_eval_ge1 [of 2 "3 + (7961314590657215 / 2251799813685248)"]
  by (simp add: fadd_def rne_def)

lemma e_step: "fadd (7961314590657215 / 1125899906842624) (4539793791732069 / 1125899906842624) = (3125277095597321 / 281474976710656)"
  using fl_val_ge1 [of 3 "(7961314590657215 / 1125899906842624) + (4539793791732069 / 1125899906842624)" "6250554191194642"]
  by (simp add: fadd_def)

lemma e_t0: "fmul 0 (3125277095597321 / 281474976710656) = 0"
  by (simp add: fmul_def)

lemma e_t1: "fmul 1 (3125277095597321 / 281474976710656) = (3125277095597321 / 281474976710656)"
  using fl_val_ge1 [of 3 "1 * (3125277095597321 / 281474976710656)" "6250554191194642"]
  by (simp add: fmul_def)

lemma e_c0: "fadd (- (1757968366273493 / 35184372088832)) 0 = (- (1757968366273493 / 35184372088832))"
  using fl_val_ge1 [of 5 "(- (1757968366273493 / 35184372088832)) + 0" "(- 7031873465093972)"]
  by (simp add: fadd_def)

lemma e_c1: "fadd (- (1757968366273493 / 35184372088832)) (3125277095597321 / 281474976710656) = (- (341827182330957 / 8796093022208))"
  using fl_eval_ge1 [of 5 "(- (1757968366273493 / 35184372088832)) + (3125277095597321 / 281474976710656)"]
  by (simp add: fadd_def rne_def)

lemma e_v1: "fadd (229948656745515 / 35184372088832) (3125277095597321 / 281474976710656) = (4964866349561441 / 281474976710656)"
  using fl_val_ge1 [of 4 "(229948656745515 / 35184372088832) + (3125277095597321 / 281474976710656)" "4964866349561441"]
  by (simp add: fadd_def)

lemma e_c1S: "fadd (- (341827182330957 / 8796093022208)) (113 / 2) = (155152073423795 / 8796093022208)"
  using fl_val_ge1 [of 4 "(- (341827182330957 / 8796093022208)) + (113 / 2)" "4964866349561440"]
  by (simp add: fadd_def)

lemma e_diff: "fsub (- (341827182330957 / 8796093022208)) (- (1757968366273493 / 35184372088832)) = (390659636949665 / 35184372088832)"
  using fl_val_ge1 [of 3 "(- (341827182330957 / 8796093022208)) - (- (1757968366273493 / 35184372088832))" "6250554191194640"]
  by (simp add: fsub_def)

lemmas e113 = e_2E e_usable e_uG e_HG e_quot e_nH e_n1 e_n1g e_baseUsed e_leftover e_share e_gap e_halfS e_startS e_halfH e_start_c e_start_v e_step e_t0 e_t1 e_c0 e_c1 e_v1 e_c1S e_diff

lemma centered64_113:
  "computeCenteredAxisPositions64 113 HOLE_SPAN_PLANAR64 EDGE_CLEARANCE MIN_GAP (Some MAX_AXIS_COUNT_DEPTH) =
     Some \<lparr>positions = map (\<lambda>i. fadd (- (1757968366273493 / 35184372088832))
                                  (fmul (real i) (3125277095597321 / 281474976710656))) [0 ..< 10],
            gapBetween = 4539793791732069 / 1125899906842624\<rparr>"
  unfolding computeCenteredAxisPositions64_def Let_def
  by (simp add: H_val EDGE_CLEARANCE_def MIN_GAP_def MAX_AXIS_COUNT_DEPTH_def e113)

lemma vertical64_113:
  "computeVerticalPositions64 113 HOLE_SPAN_PLANAR64 EDGE_CLEARANCE MIN_GAP (Some MAX_AXIS_COUNT_HEIGHT) =
     Some \<lparr>positions = map (\<lambda>i. fadd (229948656745515 / 35184372088832)
                                  (fmul (real i) (3125277095597321 / 281474976710656))) [0 ..< 10],
            gapBetween = 4539793791732069 / 1125899906842624\<rparr>"
  unfolding computeVerticalPositions64_def Let_def
  by (simp add: H_val EDGE_CLEARANCE_def MIN_GAP_def MAX_AXIS_COUNT_HEIGHT_def e113)

section \<open>The claims about the solver\<close>

text \<open>
  C1, as amended, in three parts. Over the reals: for a footprint \<open>F \<ge> 0\<close> and a
  minimum gap \<open>G\<close> with \<open>F + G > 0\<close> (so for every positive footprint and non-negative
  gap), and a span with \<open>S - 2E \<ge> F\<close>, the centered solver, with or without a cap,
  returns at least one position, every position lies in \<open>[-S/2 + E, S/2 - E]\<close>, and
  consecutive positions differ by at least \<open>F + G\<close>. In binary64: for \<open>F \<ge> 0\<close>,
  \<open>G \<ge> 0\<close>, \<open>F + G > 0\<close> and a footprint that is at most the usable span the code
  computes, the gap loop ends and the solver returns at least one position; the first
  position is \<open>-S/2 + E + F/2\<close> with each operation rounded; position \<open>i\<close> is the first
  position plus \<open>i\<close> times the step, the step being \<open>F\<close> plus the returned gap, each of
  these operations rounded again; and with more than one position the returned gap is
  at least \<open>G\<close> (rounded). Consecutive positions so differ by \<open>F\<close> plus the returned gap
  up to rounding, not exactly. In binary64 with the constants of the program (footprint
  \<open>HOLE_SPAN_PLANAR\<close>, edge clearance 3, minimum gap 4, any cap) and a span from 20 to
  256: every position lies in \<open>[-S/2 + E, S/2 - E]\<close> and consecutive positions differ
  by at least \<open>F + G - 2^-40\<close>.
\<close>

theorem centered_layout_ok:
  "(0 \<le> F \<and> 0 < F + G \<and> F \<le> S - 2 * E \<longrightarrow>
      positions (computeCenteredAxisPositions S F E G C) \<noteq> [] \<and>
      (\<forall>p \<in> set (positions (computeCenteredAxisPositions S F E G C)).
         - S / 2 + E \<le> p \<and> p \<le> S / 2 - E) \<and>
      (\<forall>i. Suc i < length (positions (computeCenteredAxisPositions S F E G C)) \<longrightarrow>
         F + G \<le> positions (computeCenteredAxisPositions S F E G C) ! Suc i
           - positions (computeCenteredAxisPositions S F E G C) ! i)) \<and>
   (0 \<le> F \<and> 0 \<le> G \<and> 0 < F + G \<and> F \<le> fsub S (fmul 2 E) \<longrightarrow>
      (\<exists>r. computeCenteredAxisPositions64 S F E G C = Some r \<and>
         positions r \<noteq> [] \<and>
         hd (positions r) = fadd (fadd (fdiv (- S) 2) E) (fdiv F 2) \<and>
         positions r =
           map (\<lambda>i. fadd (fadd (fadd (fdiv (- S) 2) E) (fdiv F 2))
                          (fmul (real i) (fadd F (gapBetween r))))
               [0 ..< length (positions r)] \<and>
         (1 < length (positions r) \<longrightarrow> fl G \<le> gapBetween r))) \<and>
   (20 \<le> S \<and> S \<le> 256 \<longrightarrow>
      (\<exists>r. computeCenteredAxisPositions64 S HOLE_SPAN_PLANAR64 EDGE_CLEARANCE MIN_GAP C = Some r \<and>
         positions r \<noteq> [] \<and>
         (\<forall>p \<in> set (positions r). - S / 2 + EDGE_CLEARANCE \<le> p \<and> p \<le> S / 2 - EDGE_CLEARANCE) \<and>
         (\<forall>i. Suc i < length (positions r) \<longrightarrow>
            HOLE_SPAN_PLANAR64 + MIN_GAP - 1 / 2 ^ 40 \<le> positions r ! Suc i - positions r ! i)))"
proof (intro conjI impI)
  assume a: "0 \<le> F \<and> 0 < F + G \<and> F \<le> S - 2 * E"
  then have F0: "0 \<le> F" and FG: "0 < F + G" and fit: "F \<le> S - 2 * E" by simp_all
  note facts = centered_layout_facts [OF F0 FG fit, of C]
  from facts show "positions (computeCenteredAxisPositions S F E G C) \<noteq> []" by blast
  from facts have "\<forall>p \<in> set (positions (computeCenteredAxisPositions S F E G C)).
        - S / 2 + E + F / 2 \<le> p \<and> p \<le> S / 2 - E - F / 2"
    by blast
  with F0 show "\<forall>p \<in> set (positions (computeCenteredAxisPositions S F E G C)).
        - S / 2 + E \<le> p \<and> p \<le> S / 2 - E"
    by fastforce
  from facts show "\<forall>i. Suc i < length (positions (computeCenteredAxisPositions S F E G C)) \<longrightarrow>
         F + G \<le> positions (computeCenteredAxisPositions S F E G C) ! Suc i
           - positions (computeCenteredAxisPositions S F E G C) ! i"
    by blast
next
  assume a: "0 \<le> F \<and> 0 \<le> G \<and> 0 < F + G \<and> F \<le> fsub S (fmul 2 E)"
  then have F0: "0 \<le> F" and G0: "0 \<le> G" and fit: "F \<le> fsub S (fmul 2 E)" by simp_all
  from centered64_shape_gap [OF F0 G0 fit, of C]
  show "\<exists>r. computeCenteredAxisPositions64 S F E G C = Some r \<and>
         positions r \<noteq> [] \<and>
         hd (positions r) = fadd (fadd (fdiv (- S) 2) E) (fdiv F 2) \<and>
         positions r =
           map (\<lambda>i. fadd (fadd (fadd (fdiv (- S) 2) E) (fdiv F 2))
                          (fmul (real i) (fadd F (gapBetween r))))
               [0 ..< length (positions r)] \<and>
         (1 < length (positions r) \<longrightarrow> fl G \<le> gapBetween r)"
    by blast
next
  assume a: "20 \<le> S \<and> S \<le> 256"
  then have S: "20 \<le> S" "S \<le> 256" by simp_all
  from constants64_layout [OF S, of C]
  show "\<exists>r. computeCenteredAxisPositions64 S HOLE_SPAN_PLANAR64 EDGE_CLEARANCE MIN_GAP C = Some r \<and>
         positions r \<noteq> [] \<and>
         (\<forall>p \<in> set (positions r). - S / 2 + EDGE_CLEARANCE \<le> p \<and> p \<le> S / 2 - EDGE_CLEARANCE) \<and>
         (\<forall>i. Suc i < length (positions r) \<longrightarrow>
            HOLE_SPAN_PLANAR64 + MIN_GAP - 1 / 2 ^ 40 \<le> positions r ! Suc i - positions r ! i)"
    unfolding EDGE_CLEARANCE_def MIN_GAP_def by blast
qed

theorem centered_layout_ok_witness:
  "((0::real) \<le> 7 \<and> (0::real) < 7 + 4 \<and> (7::real) \<le> 40 - 2 * 3 \<and>
    (0::real) \<le> 4 \<and> 7 \<le> fsub 40 (fmul 2 3) \<and> (20::real) \<le> 40 \<and> (40::real) \<le> 256) \<and>
   positions (computeCenteredAxisPositions 40 7 3 4 (Some 12)) \<noteq> [] \<and>
   - 40 / 2 + 3 \<le> last (positions (computeCenteredAxisPositions 40 7 3 4 (Some 12))) \<and>
   last (positions (computeCenteredAxisPositions 40 7 3 4 (Some 12))) \<le> 40 / 2 - 3 \<and>
   7 + 4 \<le> positions (computeCenteredAxisPositions 40 7 3 4 (Some 12)) ! Suc 0
     - positions (computeCenteredAxisPositions 40 7 3 4 (Some 12)) ! 0 \<and>
   (\<exists>r. computeCenteredAxisPositions64 40 7 3 4 (Some 12) = Some r \<and>
      positions r \<noteq> [] \<and>
      hd (positions r) = fadd (fadd (fdiv (- 40) 2) 3) (fdiv 7 2) \<and>
      positions r =
        map (\<lambda>i. fadd (fadd (fadd (fdiv (- 40) 2) 3) (fdiv 7 2))
                       (fmul (real i) (fadd 7 (gapBetween r))))
            [0 ..< length (positions r)]) \<and>
   (\<exists>r. computeCenteredAxisPositions64 40 HOLE_SPAN_PLANAR64 EDGE_CLEARANCE MIN_GAP (Some 12) = Some r \<and>
      positions r \<noteq> [] \<and>
      - 40 / 2 + EDGE_CLEARANCE \<le> last (positions r) \<and>
      last (positions r) \<le> 40 / 2 - EDGE_CLEARANCE)"
proof -
  let ?ps = "positions (computeCenteredAxisPositions 40 7 3 4 (Some 12))"
  have a: "(0::real) \<le> 7 \<and> (0::real) < 7 + 4 \<and> (7::real) \<le> 40 - 2 * 3"
    by simp
  have b: "(0::real) \<le> 7 \<and> (0::real) \<le> 4 \<and> (0::real) < 7 + 4 \<and> 7 \<le> fsub 40 (fmul 2 3)"
    by (simp add: fl_6 fl_34)
  have c: "(20::real) \<le> 40 \<and> (40::real) \<le> 256" by simp
  note ok = centered_layout_ok [of 7 4 40 3 "Some 12"]
  from ok a have ne: "?ps \<noteq> []" by blast
  then have l: "last ?ps \<in> set ?ps" by simp
  have len: "Suc 0 < length ?ps"
    by (simp add: centered_example)
  from ok a l have inside: "- 40 / 2 + 3 \<le> last ?ps \<and> last ?ps \<le> 40 / 2 - 3"
    by blast
  from ok a len have step: "7 + 4 \<le> ?ps ! Suc 0 - ?ps ! 0"
    by blast
  from ok b have fl: "\<exists>r. computeCenteredAxisPositions64 40 7 3 4 (Some 12) = Some r \<and>
      positions r \<noteq> [] \<and>
      hd (positions r) = fadd (fadd (fdiv (- 40) 2) 3) (fdiv 7 2) \<and>
      positions r =
        map (\<lambda>i. fadd (fadd (fadd (fdiv (- 40) 2) 3) (fdiv 7 2))
                       (fmul (real i) (fadd 7 (gapBetween r))))
            [0 ..< length (positions r)]"
    by blast
  from ok c obtain r where r: "computeCenteredAxisPositions64 40 HOLE_SPAN_PLANAR64 EDGE_CLEARANCE MIN_GAP (Some 12) = Some r"
    and rne: "positions r \<noteq> []"
    and rin: "\<forall>p \<in> set (positions r). - 40 / 2 + EDGE_CLEARANCE \<le> p \<and> p \<le> 40 / 2 - EDGE_CLEARANCE"
    by blast
  from rne have "last (positions r) \<in> set (positions r)" by simp
  with rin have "- 40 / 2 + EDGE_CLEARANCE \<le> last (positions r) \<and>
      last (positions r) \<le> 40 / 2 - EDGE_CLEARANCE"
    by blast
  with r rne have cst: "\<exists>r. computeCenteredAxisPositions64 40 HOLE_SPAN_PLANAR64 EDGE_CLEARANCE MIN_GAP (Some 12) = Some r \<and>
      positions r \<noteq> [] \<and>
      - 40 / 2 + EDGE_CLEARANCE \<le> last (positions r) \<and>
      last (positions r) \<le> 40 / 2 - EDGE_CLEARANCE"
    by blast
  from a b c ne inside step fl cst show ?thesis by blast
qed

text \<open>
  C1 as stated, with consecutive positions that differ by exactly \<open>F\<close> plus the final
  gap, fails in binary64 at the span 113 with the constants of the program: the solver
  returns 10 positions and the gap \<open>4539793791732069 / 2^50\<close>; the second position
  minus the first is \<open>390659636949665 / 2^45\<close>, which is neither \<open>F\<close> plus that gap nor
  that sum rounded (the step, \<open>3125277095597321 / 2^48\<close>).
\<close>

theorem centered_step_rounding_counterexample:
  "map_option (\<lambda>r. positions r ! 1 - positions r ! 0)
     (computeCenteredAxisPositions64 113 HOLE_SPAN_PLANAR64 EDGE_CLEARANCE MIN_GAP (Some MAX_AXIS_COUNT_DEPTH))
     = Some (390659636949665 / 35184372088832) \<and>
   map_option gapBetween
     (computeCenteredAxisPositions64 113 HOLE_SPAN_PLANAR64 EDGE_CLEARANCE MIN_GAP (Some MAX_AXIS_COUNT_DEPTH))
     = Some (4539793791732069 / 1125899906842624) \<and>
   (390659636949665 / 35184372088832 :: real) \<noteq> HOLE_SPAN_PLANAR64 + 4539793791732069 / 1125899906842624 \<and>
   (390659636949665 / 35184372088832 :: real) \<noteq> fadd HOLE_SPAN_PLANAR64 (4539793791732069 / 1125899906842624)"
  unfolding centered64_113
  by (simp add: H_val e113)

text \<open>
  C2, as amended. With \<open>F + G > 0\<close> and a cap \<open>C\<close>, the solver returns at most
  \<open>max(1, C)\<close> positions, unless the gap search stopped at its safety ceiling, and then
  the returned gap exceeds 30.
\<close>

theorem centered_cap_or_ceiling:
  assumes FG: "0 < F + G"
  shows "real (length (positions (computeCenteredAxisPositions S F E G (Some C)))) \<le> max 1 C \<or>
         30 < gapBetween (computeCenteredAxisPositions S F E G (Some C))"
proof (cases "S - 2 * E < F")
  case True
  then show ?thesis by (simp add: computeCenteredAxisPositions_def)
next
  case False
  then have fit: "F \<le> S - 2 * E" by simp
  let ?u = "S - 2 * E"
  obtain n g where n1: "1 \<le> n" and gG: "G \<le> g"
    and used: "of_int n * (F + g) \<le> ?u + g"
    and cap: "of_int n \<le> C \<or> 30 < g"
    and r: "computeCenteredAxisPositions S F E G (Some C) =
       \<lparr>positions = map (\<lambda>i. - S / 2 + E + F / 2 + real i *
            (F + (if n > 1 then g + max 0 (?u - (of_int n * F + (of_int n - 1) * g)) / (of_int n - 1) else 0)))
            [0 ..< nat n],
        gapBetween = (if n > 1 then g + max 0 (?u - (of_int n * F + (of_int n - 1) * g)) / (of_int n - 1) else 0)\<rparr>"
    using centered_shape [OF fit FG, of "Some C"] by (metis option.simps(5))
  have len: "real (length (positions (computeCenteredAxisPositions S F E G (Some C)))) = of_int n"
    using n1 by (simp add: r)
  show ?thesis
  proof (cases "1 < n")
    case False
    with n1 have "n = 1" by simp
    then show ?thesis unfolding len by simp
  next
    case True
    have "0 \<le> max 0 (?u - (of_int n * F + (of_int n - 1) * g)) / (of_int n - 1)"
      using True by simp
    then have "g \<le> gapBetween (computeCenteredAxisPositions S F E G (Some C))"
      using True by (simp add: r)
    with cap show ?thesis unfolding len by (auto simp: max_def)
  qed
qed

theorem centered_cap_or_ceiling_witness:
  "(0 :: real) < 7 + 4 \<and>
   (real (length (positions (computeCenteredAxisPositions 40 7 3 4 (Some 2)))) \<le> max 1 2 \<or>
    30 < gapBetween (computeCenteredAxisPositions 40 7 3 4 (Some 2)))"
  using centered_cap_or_ceiling [of 7 4 40 3 2] by simp

text \<open>
  C2 as stated fails when the safety ceiling stops the search: with \<open>S = 500\<close>, \<open>F = 7\<close>,
  \<open>E = 3\<close>, \<open>G = 4\<close> and the cap 12 the loop ends at the gap 31 with the count
  \<open>\<lfloor>(494 + 31) / (7 + 31)\<rfloor> = 13\<close>, and 13 positions are returned.
\<close>

theorem centered_cap_exceeded_counterexample:
  "length (positions (computeCenteredAxisPositions 500 7 3 4 (Some 12))) = 13 \<and>
   \<not> (13 :: real) \<le> 12"
proof -
  have loop: "centered_gap_loop 494 7 12 45 4 4 = (13, 31)"
    by (simp add: centered_gap_loop_unfold)
  show ?thesis
    unfolding computeCenteredAxisPositions_def Let_def
    by (simp add: loop)
qed

text \<open>
  C3. When the usable span \<open>S - 2E\<close> is smaller than the footprint \<open>F\<close>, the centered
  solver returns no position (and a gap of 0), whatever the minimum gap and the cap.
\<close>

theorem centered_too_narrow_empty:
  "S - 2 * E < F \<Longrightarrow>
     computeCenteredAxisPositions S F E G C = \<lparr>positions = [], gapBetween = 0\<rparr>"
  by (simp add: computeCenteredAxisPositions_def)

theorem centered_too_narrow_empty_witness:
  "(10::real) - 2 * 3 < 5 \<and>
   positions (computeCenteredAxisPositions 10 5 3 4 (Some 12)) = []"
  using centered_too_narrow_empty [of 10 3 5 4 "Some 12"] by simp

text \<open>
  C9, as amended. In binary64, for every input and cap, the vertical solver returns
  when the centered solver does, with as many positions and the same gap, hence the same
  step \<open>F\<close> plus gap (rounded). Position \<open>i\<close> of the vertical solver is the start
  \<open>E + F/2\<close> plus \<open>i\<close> times the step, position \<open>i\<close> of the centered solver the start
  \<open>-S/2 + E + F/2\<close> plus \<open>i\<close> times the step, each operation rounded: the two differ by
  \<open>S/2\<close> up to rounding. With the constants of the program and a span from 20 to 256
  both solvers return, and each position of the vertical solver is within \<open>2^-40\<close> of
  the position of the centered solver plus \<open>S/2\<close>. (Over the reals the difference is
  \<open>S/2\<close>, \<open>vertical_shift_over_reals\<close>.)
\<close>

theorem vertical_same_layout:
  "computeVerticalPositions64 S F E G C =
     map_option (\<lambda>c. \<lparr>positions = map (\<lambda>i. fadd (fadd E (fdiv F 2))
                                             (fmul (real i) (fadd F (gapBetween c))))
                                     [0 ..< length (positions c)],
                       gapBetween = gapBetween c\<rparr>)
       (computeCenteredAxisPositions64 S F E G C) \<and>
   map_option positions (computeCenteredAxisPositions64 S F E G C) =
     map_option (\<lambda>c. map (\<lambda>i. fadd (fadd (fadd (fdiv (- S) 2) E) (fdiv F 2))
                                   (fmul (real i) (fadd F (gapBetween c))))
                          [0 ..< length (positions c)])
       (computeCenteredAxisPositions64 S F E G C) \<and>
   map_option (\<lambda>r. length (positions r)) (computeVerticalPositions64 S F E G C) =
     map_option (\<lambda>r. length (positions r)) (computeCenteredAxisPositions64 S F E G C) \<and>
   map_option gapBetween (computeVerticalPositions64 S F E G C) =
     map_option gapBetween (computeCenteredAxisPositions64 S F E G C) \<and>
   (20 \<le> S \<and> S \<le> 256 \<longrightarrow>
      (\<exists>c v. computeCenteredAxisPositions64 S HOLE_SPAN_PLANAR64 EDGE_CLEARANCE MIN_GAP C = Some c \<and>
         computeVerticalPositions64 S HOLE_SPAN_PLANAR64 EDGE_CLEARANCE MIN_GAP C = Some v \<and>
         length (positions v) = length (positions c) \<and>
         gapBetween v = gapBetween c \<and>
         (\<forall>i. i < length (positions c) \<longrightarrow>
            \<bar>positions v ! i - (positions c ! i + S / 2)\<bar> \<le> 1 / 2 ^ 40)))"
proof -
  note v = vertical64_from_centered [of S F E G C]
  have len: "map_option (\<lambda>r. length (positions r)) (computeVerticalPositions64 S F E G C) =
     map_option (\<lambda>r. length (positions r)) (computeCenteredAxisPositions64 S F E G C)"
    unfolding v by (cases "computeCenteredAxisPositions64 S F E G C") simp_all
  have gap: "map_option gapBetween (computeVerticalPositions64 S F E G C) =
     map_option gapBetween (computeCenteredAxisPositions64 S F E G C)"
    unfolding v by (cases "computeCenteredAxisPositions64 S F E G C") simp_all
  have close: "20 \<le> S \<and> S \<le> 256 \<longrightarrow>
      (\<exists>c v. computeCenteredAxisPositions64 S HOLE_SPAN_PLANAR64 EDGE_CLEARANCE MIN_GAP C = Some c \<and>
         computeVerticalPositions64 S HOLE_SPAN_PLANAR64 EDGE_CLEARANCE MIN_GAP C = Some v \<and>
         length (positions v) = length (positions c) \<and>
         gapBetween v = gapBetween c \<and>
         (\<forall>i. i < length (positions c) \<longrightarrow>
            \<bar>positions v ! i - (positions c ! i + S / 2)\<bar> \<le> 1 / 2 ^ 40))"
    using vertical64_shift_bound [of S C] unfolding EDGE_CLEARANCE_def MIN_GAP_def by blast
  from v centered64_positions [of S F E G C] len gap close show ?thesis by (intro conjI)
qed

theorem vertical_same_layout_witness:
  "((20::real) \<le> 113 \<and> (113::real) \<le> 256) \<and>
   (\<exists>c v. computeCenteredAxisPositions64 113 HOLE_SPAN_PLANAR64 EDGE_CLEARANCE MIN_GAP
             (Some MAX_AXIS_COUNT_DEPTH) = Some c \<and>
      computeVerticalPositions64 113 HOLE_SPAN_PLANAR64 EDGE_CLEARANCE MIN_GAP
             (Some MAX_AXIS_COUNT_DEPTH) = Some v \<and>
      length (positions c) = 10 \<and>
      length (positions v) = 10 \<and>
      gapBetween v = gapBetween c \<and>
      \<bar>positions v ! 1 - (positions c ! 1 + 113 / 2)\<bar> \<le> 1 / 2 ^ 40)"
proof -
  have h: "(20::real) \<le> 113 \<and> (113::real) \<le> 256" by simp
  from vertical_same_layout [of 113 HOLE_SPAN_PLANAR64 EDGE_CLEARANCE MIN_GAP "Some MAX_AXIS_COUNT_DEPTH"] h
  obtain c v where c: "computeCenteredAxisPositions64 113 HOLE_SPAN_PLANAR64 EDGE_CLEARANCE MIN_GAP
             (Some MAX_AXIS_COUNT_DEPTH) = Some c"
    and v: "computeVerticalPositions64 113 HOLE_SPAN_PLANAR64 EDGE_CLEARANCE MIN_GAP
             (Some MAX_AXIS_COUNT_DEPTH) = Some v"
    and len: "length (positions v) = length (positions c)"
    and gap: "gapBetween v = gapBetween c"
    and close: "\<forall>i. i < length (positions c) \<longrightarrow>
            \<bar>positions v ! i - (positions c ! i + 113 / 2)\<bar> \<le> 1 / 2 ^ 40"
    by blast
  from c have lc: "length (positions c) = 10"
    unfolding centered64_113 by auto
  with close have "\<bar>positions v ! 1 - (positions c ! 1 + 113 / 2)\<bar> \<le> 1 / 2 ^ 40"
    by simp
  with h c v len gap lc show ?thesis by auto
qed

text \<open>
  C9 as stated, with positions that are exactly those of the centered solver plus
  \<open>S/2\<close>, fails in binary64 at the span 113 with the constants of the program: the
  second position of the vertical solver is \<open>4964866349561441 / 2^48\<close>, the second
  position of the centered solver is \<open>-341827182330957 / 2^43\<close>, and the first is
  neither the second plus \<open>113/2\<close> nor that sum rounded.
\<close>

theorem vertical_shift_rounding_counterexample:
  "map_option (\<lambda>r. positions r ! 1)
     (computeVerticalPositions64 113 HOLE_SPAN_PLANAR64 EDGE_CLEARANCE MIN_GAP (Some MAX_AXIS_COUNT_HEIGHT))
     = Some (4964866349561441 / 281474976710656) \<and>
   map_option (\<lambda>r. positions r ! 1)
     (computeCenteredAxisPositions64 113 HOLE_SPAN_PLANAR64 EDGE_CLEARANCE MIN_GAP (Some MAX_AXIS_COUNT_DEPTH))
     = Some (- (341827182330957 / 8796093022208)) \<and>
   (4964866349561441 / 281474976710656 :: real) \<noteq> - (341827182330957 / 8796093022208) + 113 / 2 \<and>
   (4964866349561441 / 281474976710656 :: real) \<noteq> fadd (- (341827182330957 / 8796093022208)) (113 / 2)"
  unfolding centered64_113 vertical64_113
  by (simp add: e113)

section \<open>Properties of the shell, the vent holes and the clips\<close>

subsection \<open>Kernel calls\<close>

lemma m_make_Some: "m_make k m = Some x \<Longrightarrow> x = m"
  by (simp add: m_make_def split: if_splits)

lemma cs_make_Some: "cs_make k c = Some x \<Longrightarrow> x = c"
  by (simp add: cs_make_def split: if_splits)

lemma those_Some_map: "those xs = Some ys \<Longrightarrow> xs = map Some ys"
  by (induction xs arbitrary: ys) (auto split: option.splits)

lemma those_map_Some: "those (map Some ys) = Some ys"
  by (induction ys) auto

lemma reduce_add_parts:
  "reduce_add k acc rest = Some u \<Longrightarrow>
     union_parts u = union_parts acc @ concat (map union_parts rest)"
proof (induction rest arbitrary: acc)
  case Nil
  then show ?case by simp
next
  case (Cons cur rest)
  from Cons.prems obtain a where a: "m_add k acc cur = Some a"
    and r: "reduce_add k a rest = Some u"
    by (auto simp: bind_eq_Some_conv)
  from a have "a = Add acc cur" by (auto simp: m_add_def dest: m_make_Some)
  with Cons.IH [OF r] show ?case by simp
qed

lemma unionAll_Some:
  "unionAll k parts = Some (Some u) \<Longrightarrow>
     parts \<noteq> [] \<and> union_parts u = concat (map union_parts parts)"
  by (cases parts) (auto simp: unionAll_def dest: reduce_add_parts)

lemma unionAll_Nil: "unionAll k [] = Some None"
  by (simp add: unionAll_def)

lemma grid_holes:
  assumes "those (concat (map (\<lambda>a. map (\<lambda>b. m_translate k prism (f a b)) bs) as)) = Some hs"
    and "h \<in> set hs"
  shows "\<exists>a \<in> set as. \<exists>b \<in> set bs. h = Translate prism (f a b)"
proof -
  from those_Some_map [OF assms(1)] assms(2)
  have "Some h \<in> set (concat (map (\<lambda>a. map (\<lambda>b. m_translate k prism (f a b)) bs) as))"
    by simp
  then obtain a b where "a \<in> set as" "b \<in> set bs" "m_translate k prism (f a b) = Some h"
    by auto
  then show ?thesis
    by (auto simp: m_translate_def dest: m_make_Some)
qed

lemma accepting_simps:
  assumes "accepting k"
  shows "ManifoldModule_get k = Some ()" "cs_make k c = Some c" "m_make k m = Some m"
  using assms by (simp_all add: accepting_def ManifoldModule_get_def cs_make_def m_make_def)

lemma accepting_k_all: "accepting k_all"
  by (simp add: accepting_def k_all_def)

lemma grid_empty:
  "as = [] \<or> bs = [] \<Longrightarrow> concat (map (\<lambda>a. map (\<lambda>b. g a b) bs) as) = []"
  by auto

lemma grid_Some:
  "concat (map (\<lambda>a. map (\<lambda>b. Some (g a b)) bs) as) =
     map Some (concat (map (\<lambda>a. map (\<lambda>b. g a b) bs) as))"
  by (induction as) simp_all

lemma reduce_add_total:
  "accepting k \<Longrightarrow> \<exists>u. reduce_add k acc rest = Some u"
  by (induction rest arbitrary: acc) (simp_all add: m_add_def accepting_simps)

lemma unionAll_total:
  "accepting k \<Longrightarrow> \<exists>u. unionAll k parts = Some u"
  using reduce_add_total [of k] by (cases parts) (auto simp: unionAll_def)

lemma bottom_cut_total:
  assumes "accepting k"
  shows "\<exists>b. (if P then do {
          bottom2D \<leftarrow> roundedRectangle k sz r;
          fullBottomHole \<leftarrow> m_extrude k bottom2D e;
          rib2D \<leftarrow> cs_new k vs;
          ribPrism \<leftarrow> m_extrude k rib2D e;
          cut \<leftarrow> m_subtract k fullBottomHole ribPrism;
          Some (Some cut)
        } else Some None) = Some b"
  by (simp add: roundedRectangle_def cs_new_def m_extrude_def m_subtract_def
      accepting_simps [OF assms] Let_def)

subsection \<open>The steps of \<open>createVentHoles\<close>\<close>

lemma createVentHoles_SomeE:
  assumes "createVentHoles k height width depth wall bottom radius = Some holes"
  obtains rect hole2D wallPrism bottomPrism leftPrism rightPrism frontPrism
    leftHoles rightHoles frontHoles bottomUnion leftUnion rightUnion frontUnion
  where "cs_new k [(- HOLE_LONG / 2, - HOLE_SHORT / 2), (HOLE_LONG / 2, - HOLE_SHORT / 2),
                   (HOLE_LONG / 2, HOLE_SHORT / 2), (- HOLE_LONG / 2, HOLE_SHORT / 2)] = Some rect"
    "cs_rotate k rect 45 = Some hole2D"
    "m_extrude k hole2D (wall + 3) = Some wallPrism"
    "m_extrude k hole2D (bottom + 0.8) = Some bottomPrism"
    "m_rotate k wallPrism (0, 90, 0) = Some leftPrism"
    "m_rotate k wallPrism (0, - 90, 0) = Some rightPrism"
    "m_rotate k wallPrism (90, 0, 0) = Some frontPrism"
    "those (concat (map (\<lambda>y. map (\<lambda>z. m_translate k leftPrism (- width / 2 - 1, y, z))
        (positions (computeVerticalPositions height HOLE_SPAN_PLANAR EDGE_CLEARANCE MIN_GAP
           (Some MAX_AXIS_COUNT_HEIGHT))))
        (positions (computeCenteredAxisPositions depth HOLE_SPAN_PLANAR EDGE_CLEARANCE MIN_GAP
           (Some MAX_AXIS_COUNT_DEPTH))))) = Some leftHoles"
    "those (concat (map (\<lambda>y. map (\<lambda>z. m_translate k rightPrism (width / 2 + 1, y, z))
        (positions (computeVerticalPositions height HOLE_SPAN_PLANAR EDGE_CLEARANCE MIN_GAP
           (Some MAX_AXIS_COUNT_HEIGHT))))
        (positions (computeCenteredAxisPositions depth HOLE_SPAN_PLANAR EDGE_CLEARANCE MIN_GAP
           (Some MAX_AXIS_COUNT_DEPTH))))) = Some rightHoles"
    "those (concat (map (\<lambda>x. map (\<lambda>z. m_translate k frontPrism (x, depth / 2 + 1, z))
        (positions (computeVerticalPositions height HOLE_SPAN_PLANAR EDGE_CLEARANCE MIN_GAP
           (Some MAX_AXIS_COUNT_HEIGHT))))
        (positions (computeCenteredAxisPositions width HOLE_SPAN_PLANAR EDGE_CLEARANCE MIN_GAP
           (Some MAX_AXIS_COUNT_WIDTH))))) = Some frontHoles"
    "(if max 0 (width - 2 * (wall + BOTTOM_MARGIN)) > 0 \<and> max 0 (depth - 2 * (wall + BOTTOM_MARGIN)) > 0
      then do {
          bottom2D \<leftarrow> roundedRectangle k (max 0 (width - 2 * (wall + BOTTOM_MARGIN)),
                                           max 0 (depth - 2 * (wall + BOTTOM_MARGIN)))
                        (max 0 (max 0 (radius - wall) - BOTTOM_MARGIN));
          fullBottomHole \<leftarrow> m_extrude k bottom2D (bottom + 0.8);
          rib2D \<leftarrow> cs_new k [(- RIB_WIDTH / 2, - max 0 (depth - 2 * (wall + BOTTOM_MARGIN)) / 2),
                             (RIB_WIDTH / 2, - max 0 (depth - 2 * (wall + BOTTOM_MARGIN)) / 2),
                             (RIB_WIDTH / 2, max 0 (depth - 2 * (wall + BOTTOM_MARGIN)) / 2),
                             (- RIB_WIDTH / 2, max 0 (depth - 2 * (wall + BOTTOM_MARGIN)) / 2)];
          ribPrism \<leftarrow> m_extrude k rib2D (bottom + 0.8);
          cut \<leftarrow> m_subtract k fullBottomHole ribPrism;
          Some (Some cut)
        } else Some None) = Some bottomUnion"
    "unionAll k leftHoles = Some leftUnion"
    "unionAll k rightHoles = Some rightUnion"
    "unionAll k frontHoles = Some frontUnion"
    "(case List.map_filter id [leftUnion, rightUnion, frontUnion, bottomUnion] of
        [] \<Rightarrow> m_translate k bottomPrism (0, 0, - 99999)
      | u # rest \<Rightarrow> reduce_add k u rest) = Some holes"
  using assms unfolding createVentHoles_def Let_def
  by (simp only: bind_eq_Some_conv) blast

lemma createVentHoles_total:
  assumes acc: "accepting k"
  shows "\<exists>holes. createVentHoles k height width depth wall bottom radius = Some holes"
proof -
  let ?zs = "positions (computeVerticalPositions height HOLE_SPAN_PLANAR EDGE_CLEARANCE MIN_GAP
           (Some MAX_AXIS_COUNT_HEIGHT))"
  let ?ys = "positions (computeCenteredAxisPositions depth HOLE_SPAN_PLANAR EDGE_CLEARANCE MIN_GAP
           (Some MAX_AXIS_COUNT_DEPTH))"
  let ?xs = "positions (computeCenteredAxisPositions width HOLE_SPAN_PLANAR EDGE_CLEARANCE MIN_GAP
           (Some MAX_AXIS_COUNT_WIDTH))"
  let ?wallPrism = "Extrude hole2D_value (wall + 3)"
  let ?L = "concat (map (\<lambda>y. map (\<lambda>z. Translate (Rotate ?wallPrism (0, 90, 0)) (- width / 2 - 1, y, z)) ?zs) ?ys)"
  let ?R = "concat (map (\<lambda>y. map (\<lambda>z. Translate (Rotate ?wallPrism (0, - 90, 0)) (width / 2 + 1, y, z)) ?zs) ?ys)"
  let ?F = "concat (map (\<lambda>x. map (\<lambda>z. Translate (Rotate ?wallPrism (90, 0, 0)) (x, depth / 2 + 1, z)) ?zs) ?xs)"
  obtain lu where lu: "unionAll k ?L = Some lu" using unionAll_total [OF acc] by blast
  obtain ru where ru: "unionAll k ?R = Some ru" using unionAll_total [OF acc] by blast
  obtain fu where fu: "unionAll k ?F = Some fu" using unionAll_total [OF acc] by blast
  obtain bu where bu: "(if max 0 (width - 2 * (wall + BOTTOM_MARGIN)) > 0 \<and> max 0 (depth - 2 * (wall + BOTTOM_MARGIN)) > 0
      then do {
          bottom2D \<leftarrow> roundedRectangle k (max 0 (width - 2 * (wall + BOTTOM_MARGIN)),
                                           max 0 (depth - 2 * (wall + BOTTOM_MARGIN)))
                        (max 0 (max 0 (radius - wall) - BOTTOM_MARGIN));
          fullBottomHole \<leftarrow> m_extrude k bottom2D (bottom + 0.8);
          rib2D \<leftarrow> cs_new k [(- RIB_WIDTH / 2, - max 0 (depth - 2 * (wall + BOTTOM_MARGIN)) / 2),
                             (RIB_WIDTH / 2, - max 0 (depth - 2 * (wall + BOTTOM_MARGIN)) / 2),
                             (RIB_WIDTH / 2, max 0 (depth - 2 * (wall + BOTTOM_MARGIN)) / 2),
                             (- RIB_WIDTH / 2, max 0 (depth - 2 * (wall + BOTTOM_MARGIN)) / 2)];
          ribPrism \<leftarrow> m_extrude k rib2D (bottom + 0.8);
          cut \<leftarrow> m_subtract k fullBottomHole ribPrism;
          Some (Some cut)
        } else Some None) = Some bu"
    using bottom_cut_total [OF acc] by blast
  obtain h where h: "(case List.map_filter id [lu, ru, fu, bu] of
        [] \<Rightarrow> m_translate k (Extrude hole2D_value (bottom + 0.8)) (0, 0, - 99999)
      | u # rest \<Rightarrow> reduce_add k u rest) = Some h"
    using reduce_add_total [OF acc]
    by (cases "List.map_filter id [lu, ru, fu, bu]")
       (auto simp: m_translate_def accepting_simps [OF acc])
  have "createVentHoles k height width depth wall bottom radius = Some h"
    unfolding createVentHoles_def Let_def bu
    by (simp only: cs_new_def cs_rotate_def m_extrude_def m_rotate_def m_translate_def
        accepting_simps [OF acc] bind.bind_lunit grid_Some those_map_Some
        hole2D_value_def [symmetric] lu ru fu)
       (use h in \<open>simp only: m_translate_def accepting_simps [OF acc]\<close>)
  then show ?thesis ..
qed

lemma HOLE_SPAN_PLANAR_pos: "0 < HOLE_SPAN_PLANAR"
  by (simp add: HOLE_SPAN_PLANAR_def HOLE_LONG_def HOLE_SHORT_def)

lemma HOLE_SPAN_PLANAR_gt_7: "7 < HOLE_SPAN_PLANAR"
proof -
  have "sqrt 2 < 10 / 7"
    by (rule real_less_lsqrt) (simp_all add: power2_eq_square)
  then have "7 * sqrt 2 < 10" by simp
  then show ?thesis
    by (simp add: HOLE_SPAN_PLANAR_def HOLE_LONG_def HOLE_SHORT_def pos_less_divide_eq)
qed

lemma side_positions_bounds:
  assumes "y \<in> set (positions (computeCenteredAxisPositions S HOLE_SPAN_PLANAR EDGE_CLEARANCE MIN_GAP C))"
  shows "- S / 2 + EDGE_CLEARANCE + HOLE_SPAN_PLANAR / 2 \<le> y \<and>
         y \<le> S / 2 - EDGE_CLEARANCE - HOLE_SPAN_PLANAR / 2"
proof (cases "S - 2 * EDGE_CLEARANCE < HOLE_SPAN_PLANAR")
  case True
  with assms show ?thesis by (simp add: computeCenteredAxisPositions_def)
next
  case False
  then have fit: "HOLE_SPAN_PLANAR \<le> S - 2 * EDGE_CLEARANCE" by simp
  have F0: "0 \<le> HOLE_SPAN_PLANAR" and FG: "0 < HOLE_SPAN_PLANAR + MIN_GAP"
    using HOLE_SPAN_PLANAR_pos by (simp_all add: MIN_GAP_def)
  from centered_layout_facts [OF F0 FG fit, of C] assms show ?thesis by blast
qed

lemma set_map_filter_id: "set (List.map_filter id xs) = {u. Some u \<in> set xs}"
  by (induction xs) (auto simp: List.map_filter_simps split: option.splits)

lemma vents_value:
  assumes cv: "createVentHoles k height width depth wall bottom radius = Some holes"
    and p: "p \<in> set (union_parts holes)"
  shows "(\<exists>y z. p = Translate (Rotate (Extrude hole2D_value (wall + 3)) (0, 90, 0)) (- width / 2 - 1, y, z)
            \<and> - depth / 2 + EDGE_CLEARANCE + HOLE_SPAN_PLANAR / 2 \<le> y
            \<and> y \<le> depth / 2 - EDGE_CLEARANCE - HOLE_SPAN_PLANAR / 2)
       \<or> (\<exists>y z. p = Translate (Rotate (Extrude hole2D_value (wall + 3)) (0, - 90, 0)) (width / 2 + 1, y, z)
            \<and> - depth / 2 + EDGE_CLEARANCE + HOLE_SPAN_PLANAR / 2 \<le> y
            \<and> y \<le> depth / 2 - EDGE_CLEARANCE - HOLE_SPAN_PLANAR / 2)
       \<or> (\<exists>x z. p = Translate (Rotate (Extrude hole2D_value (wall + 3)) (90, 0, 0)) (x, depth / 2 + 1, z)
            \<and> - width / 2 + EDGE_CLEARANCE + HOLE_SPAN_PLANAR / 2 \<le> x
            \<and> x \<le> width / 2 - EDGE_CLEARANCE - HOLE_SPAN_PLANAR / 2)
       \<or> (\<exists>c r. p = Subtract (Extrude c (bottom + 0.8)) (Extrude r (bottom + 0.8)))
       \<or> p = placeholder bottom"
proof -
  let ?zs = "positions (computeVerticalPositions height HOLE_SPAN_PLANAR EDGE_CLEARANCE MIN_GAP
           (Some MAX_AXIS_COUNT_HEIGHT))"
  let ?ys = "positions (computeCenteredAxisPositions depth HOLE_SPAN_PLANAR EDGE_CLEARANCE MIN_GAP
           (Some MAX_AXIS_COUNT_DEPTH))"
  let ?xs = "positions (computeCenteredAxisPositions width HOLE_SPAN_PLANAR EDGE_CLEARANCE MIN_GAP
           (Some MAX_AXIS_COUNT_WIDTH))"
  from cv obtain rect hole2D wallPrism bottomPrism leftPrism rightPrism frontPrism
    leftHoles rightHoles frontHoles bottomUnion leftUnion rightUnion frontUnion
    where rect: "cs_new k [(- HOLE_LONG / 2, - HOLE_SHORT / 2), (HOLE_LONG / 2, - HOLE_SHORT / 2),
                   (HOLE_LONG / 2, HOLE_SHORT / 2), (- HOLE_LONG / 2, HOLE_SHORT / 2)] = Some rect"
    and hole2D: "cs_rotate k rect 45 = Some hole2D"
    and wallPrism: "m_extrude k hole2D (wall + 3) = Some wallPrism"
    and bottomPrism: "m_extrude k hole2D (bottom + 0.8) = Some bottomPrism"
    and leftPrism: "m_rotate k wallPrism (0, 90, 0) = Some leftPrism"
    and rightPrism: "m_rotate k wallPrism (0, - 90, 0) = Some rightPrism"
    and frontPrism: "m_rotate k wallPrism (90, 0, 0) = Some frontPrism"
    and leftHoles: "those (concat (map (\<lambda>y. map (\<lambda>z. m_translate k leftPrism (- width / 2 - 1, y, z))
        ?zs) ?ys)) = Some leftHoles"
    and rightHoles: "those (concat (map (\<lambda>y. map (\<lambda>z. m_translate k rightPrism (width / 2 + 1, y, z))
        ?zs) ?ys)) = Some rightHoles"
    and frontHoles: "those (concat (map (\<lambda>x. map (\<lambda>z. m_translate k frontPrism (x, depth / 2 + 1, z))
        ?zs) ?xs)) = Some frontHoles"
    and bottomUnion: "(if max 0 (width - 2 * (wall + BOTTOM_MARGIN)) > 0 \<and> max 0 (depth - 2 * (wall + BOTTOM_MARGIN)) > 0
      then do {
          bottom2D \<leftarrow> roundedRectangle k (max 0 (width - 2 * (wall + BOTTOM_MARGIN)),
                                           max 0 (depth - 2 * (wall + BOTTOM_MARGIN)))
                        (max 0 (max 0 (radius - wall) - BOTTOM_MARGIN));
          fullBottomHole \<leftarrow> m_extrude k bottom2D (bottom + 0.8);
          rib2D \<leftarrow> cs_new k [(- RIB_WIDTH / 2, - max 0 (depth - 2 * (wall + BOTTOM_MARGIN)) / 2),
                             (RIB_WIDTH / 2, - max 0 (depth - 2 * (wall + BOTTOM_MARGIN)) / 2),
                             (RIB_WIDTH / 2, max 0 (depth - 2 * (wall + BOTTOM_MARGIN)) / 2),
                             (- RIB_WIDTH / 2, max 0 (depth - 2 * (wall + BOTTOM_MARGIN)) / 2)];
          ribPrism \<leftarrow> m_extrude k rib2D (bottom + 0.8);
          cut \<leftarrow> m_subtract k fullBottomHole ribPrism;
          Some (Some cut)
        } else Some None) = Some bottomUnion"
    and leftUnion: "unionAll k leftHoles = Some leftUnion"
    and rightUnion: "unionAll k rightHoles = Some rightUnion"
    and frontUnion: "unionAll k frontHoles = Some frontUnion"
    and final: "(case List.map_filter id [leftUnion, rightUnion, frontUnion, bottomUnion] of
        [] \<Rightarrow> m_translate k bottomPrism (0, 0, - 99999)
      | u # rest \<Rightarrow> reduce_add k u rest) = Some holes"
    by (rule createVentHoles_SomeE)
  have h2: "hole2D = hole2D_value"
    using rect hole2D
    by (auto simp: cs_new_def cs_rotate_def hole2D_value_def dest!: cs_make_Some)
  have wp: "wallPrism = Extrude hole2D_value (wall + 3)"
    using wallPrism h2 by (auto simp: m_extrude_def dest!: m_make_Some)
  have bp: "bottomPrism = Extrude hole2D_value (bottom + 0.8)"
    using bottomPrism h2 by (auto simp: m_extrude_def dest!: m_make_Some)
  have lp: "leftPrism = Rotate (Extrude hole2D_value (wall + 3)) (0, 90, 0)"
    using leftPrism wp by (auto simp: m_rotate_def dest!: m_make_Some)
  have rp: "rightPrism = Rotate (Extrude hole2D_value (wall + 3)) (0, - 90, 0)"
    using rightPrism wp by (auto simp: m_rotate_def dest!: m_make_Some)
  have fp: "frontPrism = Rotate (Extrude hole2D_value (wall + 3)) (90, 0, 0)"
    using frontPrism wp by (auto simp: m_rotate_def dest!: m_make_Some)
  let ?unions = "List.map_filter id [leftUnion, rightUnion, frontUnion, bottomUnion]"
  show ?thesis
  proof (cases ?unions)
    case Nil
    with final have "holes = placeholder bottom"
      by (auto simp: m_translate_def placeholder_def bp dest!: m_make_Some)
    with p show ?thesis by (simp add: placeholder_def)
  next
    case (Cons u rest)
    with final have "reduce_add k u rest = Some holes" by simp
    from reduce_add_parts [OF this] Cons
    have "union_parts holes = concat (map union_parts ?unions)" by simp
    with p obtain v where v: "v \<in> set ?unions" and pv: "p \<in> set (union_parts v)" by auto
    from v [unfolded set_map_filter_id]
    have "Some v \<in> {leftUnion, rightUnion, frontUnion, bottomUnion}"
      by simp
    then consider (left) "leftUnion = Some v" | (right) "rightUnion = Some v"
      | (front) "frontUnion = Some v" | (bot) "bottomUnion = Some v" by auto
    then show ?thesis
    proof cases
      case left
      with leftUnion have "union_parts v = concat (map union_parts leftHoles)"
        by (auto dest: unionAll_Some)
      with pv obtain h where h: "h \<in> set leftHoles" and ph: "p \<in> set (union_parts h)" by auto
      from grid_holes [OF leftHoles h] obtain y z where y: "y \<in> set ?ys"
        and hh: "h = Translate leftPrism (- width / 2 - 1, y, z)" by blast
      from ph hh have "p = Translate leftPrism (- width / 2 - 1, y, z)" by simp
      with side_positions_bounds [OF y] lp show ?thesis by blast
    next
      case right
      with rightUnion have "union_parts v = concat (map union_parts rightHoles)"
        by (auto dest: unionAll_Some)
      with pv obtain h where h: "h \<in> set rightHoles" and ph: "p \<in> set (union_parts h)" by auto
      from grid_holes [OF rightHoles h] obtain y z where y: "y \<in> set ?ys"
        and hh: "h = Translate rightPrism (width / 2 + 1, y, z)" by blast
      from ph hh have "p = Translate rightPrism (width / 2 + 1, y, z)" by simp
      with side_positions_bounds [OF y] rp show ?thesis by blast
    next
      case front
      with frontUnion have "union_parts v = concat (map union_parts frontHoles)"
        by (auto dest: unionAll_Some)
      with pv obtain h where h: "h \<in> set frontHoles" and ph: "p \<in> set (union_parts h)" by auto
      from grid_holes [OF frontHoles h] obtain x z where x: "x \<in> set ?xs"
        and hh: "h = Translate frontPrism (x, depth / 2 + 1, z)" by blast
      from ph hh have "p = Translate frontPrism (x, depth / 2 + 1, z)" by simp
      with side_positions_bounds [OF x] fp show ?thesis by blast
    next
      case bot
      with bottomUnion obtain c r where "v = Subtract (Extrude c (bottom + 0.8)) (Extrude r (bottom + 0.8))"
        by (auto simp: bind_eq_Some_conv m_extrude_def m_subtract_def split: if_splits dest!: m_make_Some)
      with pv show ?thesis by simp
    qed
  qed
qed

lemma base_shell_Some:
  assumes "base_shell k height width depth radius wall bottom = Some shell"
  shows "\<exists>outer2D inner2D. shell =
           Subtract (Extrude outer2D height) (Translate (Extrude inner2D (height - bottom)) (0, 0, bottom))"
  using assms unfolding base_shell_def Let_def
  by (auto simp: bind_eq_Some_conv m_extrude_def m_translate_def m_subtract_def dest!: m_make_Some)

lemma roundedRectangle_total:
  "accepting k \<Longrightarrow> \<exists>c. roundedRectangle k sz r = Some c"
  by (simp add: roundedRectangle_def cs_new_def accepting_simps Let_def)

lemma base_shell_total:
  assumes "accepting k"
  shows "\<exists>shell. base_shell k height width depth radius wall bottom = Some shell"
proof -
  obtain c1 where c1: "roundedRectangle k (width, depth) radius = Some c1"
    using roundedRectangle_total [OF assms] by blast
  obtain c2 where c2: "roundedRectangle k (width - 2 * wall, depth - 2 * wall) (max 0 (radius - wall)) = Some c2"
    using roundedRectangle_total [OF assms] by blast
  show ?thesis
    unfolding base_shell_def Let_def
    by (simp add: c1 c2 m_extrude_def m_translate_def m_subtract_def accepting_simps [OF assms])
qed

lemma centered_empty:
  "S - 2 * E < F \<Longrightarrow> positions (computeCenteredAxisPositions S F E G C) = []"
  by (simp add: computeCenteredAxisPositions_def)

lemma vents_zero_value:
  assumes side: "positions (computeCenteredAxisPositions depth HOLE_SPAN_PLANAR EDGE_CLEARANCE MIN_GAP
                   (Some MAX_AXIS_COUNT_DEPTH)) = [] \<or>
                 positions (computeVerticalPositions height HOLE_SPAN_PLANAR EDGE_CLEARANCE MIN_GAP
                   (Some MAX_AXIS_COUNT_HEIGHT)) = []"
    and front: "positions (computeCenteredAxisPositions width HOLE_SPAN_PLANAR EDGE_CLEARANCE MIN_GAP
                   (Some MAX_AXIS_COUNT_WIDTH)) = [] \<or>
                 positions (computeVerticalPositions height HOLE_SPAN_PLANAR EDGE_CLEARANCE MIN_GAP
                   (Some MAX_AXIS_COUNT_HEIGHT)) = []"
    and bot: "max 0 (width - 2 * (wall + BOTTOM_MARGIN)) \<le> 0 \<or>
              max 0 (depth - 2 * (wall + BOTTOM_MARGIN)) \<le> 0"
    and cv: "createVentHoles k height width depth wall bottom radius = Some holes"
  shows "holes = placeholder bottom"
proof -
  let ?zs = "positions (computeVerticalPositions height HOLE_SPAN_PLANAR EDGE_CLEARANCE MIN_GAP
           (Some MAX_AXIS_COUNT_HEIGHT))"
  let ?ys = "positions (computeCenteredAxisPositions depth HOLE_SPAN_PLANAR EDGE_CLEARANCE MIN_GAP
           (Some MAX_AXIS_COUNT_DEPTH))"
  let ?xs = "positions (computeCenteredAxisPositions width HOLE_SPAN_PLANAR EDGE_CLEARANCE MIN_GAP
           (Some MAX_AXIS_COUNT_WIDTH))"
  from cv obtain rect hole2D wallPrism bottomPrism leftPrism rightPrism frontPrism
    leftHoles rightHoles frontHoles bottomUnion leftUnion rightUnion frontUnion
    where rect: "cs_new k [(- HOLE_LONG / 2, - HOLE_SHORT / 2), (HOLE_LONG / 2, - HOLE_SHORT / 2),
                   (HOLE_LONG / 2, HOLE_SHORT / 2), (- HOLE_LONG / 2, HOLE_SHORT / 2)] = Some rect"
    and hole2D: "cs_rotate k rect 45 = Some hole2D"
    and bottomPrism: "m_extrude k hole2D (bottom + 0.8) = Some bottomPrism"
    and leftHoles: "those (concat (map (\<lambda>y. map (\<lambda>z. m_translate k leftPrism (- width / 2 - 1, y, z))
        ?zs) ?ys)) = Some leftHoles"
    and rightHoles: "those (concat (map (\<lambda>y. map (\<lambda>z. m_translate k rightPrism (width / 2 + 1, y, z))
        ?zs) ?ys)) = Some rightHoles"
    and frontHoles: "those (concat (map (\<lambda>x. map (\<lambda>z. m_translate k frontPrism (x, depth / 2 + 1, z))
        ?zs) ?xs)) = Some frontHoles"
    and bottomUnion: "(if max 0 (width - 2 * (wall + BOTTOM_MARGIN)) > 0 \<and> max 0 (depth - 2 * (wall + BOTTOM_MARGIN)) > 0
      then do {
          bottom2D \<leftarrow> roundedRectangle k (max 0 (width - 2 * (wall + BOTTOM_MARGIN)),
                                           max 0 (depth - 2 * (wall + BOTTOM_MARGIN)))
                        (max 0 (max 0 (radius - wall) - BOTTOM_MARGIN));
          fullBottomHole \<leftarrow> m_extrude k bottom2D (bottom + 0.8);
          rib2D \<leftarrow> cs_new k [(- RIB_WIDTH / 2, - max 0 (depth - 2 * (wall + BOTTOM_MARGIN)) / 2),
                             (RIB_WIDTH / 2, - max 0 (depth - 2 * (wall + BOTTOM_MARGIN)) / 2),
                             (RIB_WIDTH / 2, max 0 (depth - 2 * (wall + BOTTOM_MARGIN)) / 2),
                             (- RIB_WIDTH / 2, max 0 (depth - 2 * (wall + BOTTOM_MARGIN)) / 2)];
          ribPrism \<leftarrow> m_extrude k rib2D (bottom + 0.8);
          cut \<leftarrow> m_subtract k fullBottomHole ribPrism;
          Some (Some cut)
        } else Some None) = Some bottomUnion"
    and leftUnion: "unionAll k leftHoles = Some leftUnion"
    and rightUnion: "unionAll k rightHoles = Some rightUnion"
    and frontUnion: "unionAll k frontHoles = Some frontUnion"
    and final: "(case List.map_filter id [leftUnion, rightUnion, frontUnion, bottomUnion] of
        [] \<Rightarrow> m_translate k bottomPrism (0, 0, - 99999)
      | u # rest \<Rightarrow> reduce_add k u rest) = Some holes"
    by (rule createVentHoles_SomeE)
  have bp: "bottomPrism = Extrude hole2D_value (bottom + 0.8)"
    using rect hole2D bottomPrism
    by (auto simp: cs_new_def cs_rotate_def m_extrude_def hole2D_value_def
        dest!: cs_make_Some m_make_Some)
  from leftHoles have "leftHoles = []"
    unfolding grid_empty [OF side] by simp
  with leftUnion have lu: "leftUnion = None" by (simp add: unionAll_Nil)
  from rightHoles have "rightHoles = []"
    unfolding grid_empty [OF side] by simp
  with rightUnion have ru: "rightUnion = None" by (simp add: unionAll_Nil)
  from frontHoles have "frontHoles = []"
    unfolding grid_empty [OF front] by simp
  with frontUnion have fu: "frontUnion = None" by (simp add: unionAll_Nil)
  from bot have "\<not> (max 0 (width - 2 * (wall + BOTTOM_MARGIN)) > 0 \<and>
                   max 0 (depth - 2 * (wall + BOTTOM_MARGIN)) > 0)"
    by linarith
  with bottomUnion have "Some None = Some bottomUnion" by (simp only: if_False)
  then have bu: "bottomUnion = None" by simp
  from final have "m_translate k bottomPrism (0, 0, - 99999) = Some holes"
    unfolding lu ru fu bu by (simp add: List.map_filter_simps)
  then show ?thesis
    by (auto simp: m_translate_def placeholder_def bp dest!: m_make_Some)
qed

lemma z_range_placeholder:
  "z_range (placeholder bottom) = Some (- 99999, bottom + 0.8 - 99999)"
  by (simp add: placeholder_def)

lemma narrow_12: "(12 :: real) - 2 * EDGE_CLEARANCE < HOLE_SPAN_PLANAR"
  using HOLE_SPAN_PLANAR_gt_7 by (simp add: EDGE_CLEARANCE_def)

lemma union_parts_nonempty: "union_parts m \<noteq> []"
  by (induction m) auto

lemma shell_no_rotate2: "base_shell k_no_rotate2 52 80 60 6 2 3 \<noteq> None"
  by (simp add: base_shell_def roundedRectangle_def ManifoldModule_get_def cs_new_def cs_make_def
      m_extrude_def m_translate_def m_subtract_def m_make_def k_no_rotate2_def Let_def)

lemma vents_no_rotate2: "createVentHoles k_no_rotate2 52 80 60 2 3 6 = None"
  by (simp add: createVentHoles_def ManifoldModule_get_def cs_new_def cs_rotate_def cs_make_def
      k_no_rotate2_def)

lemma base_accepting:
  assumes "accepting k"
  shows "\<exists>out a b. base k height width depth radius wall bottom = (out, Some (Subtract a b))"
proof -
  obtain shell where sh: "base_shell k height width depth radius wall bottom = Some shell"
    using base_shell_total [OF assms] by blast
  from base_shell_Some [OF sh] obtain a b where ab: "shell = Subtract a b" by blast
  show ?thesis
  proof (cases "createVentHoles k height width depth wall bottom radius")
    case None
    with sh ab show ?thesis by (simp add: base_def)
  next
    case (Some h)
    with sh show ?thesis
      by (simp add: base_def m_subtract_def accepting_simps [OF assms])
  qed
qed

lemma clips_k_all:
  "\<exists>cl cr. clips k_all chamfer = Some (cl, cr)"
  by (simp add: clips_def clipRCrossSection_def cs_new_def cs_rotate_def cs_mirror_def
      m_extrude_def m_trimByPlane_def accepting_simps [OF accepting_k_all])

subsection \<open>The clip grid\<close>

text \<open>
  The operations of the clip grid at three inputs, each with its rounded result: width
  80 and radius 6 (height 52, depth 60), width 20 and radius 6, and the width
  \<open>10 - 2^-49\<close> with radius 0; and the count at the working width \<open>-2^-48\<close>.
\<close>

lemma b_2r: "fmul 2 6 = 12"
  using fl_val_ge1 [of 3 "2 * 6" "6755399441055744"]
  by (simp add: fmul_def)

lemma b_w2r: "fsub 80 12 = 68"
  using fl_val_ge1 [of 6 "80 - 12" "4785074604081152"]
  by (simp add: fsub_def)

lemma b_2p: "fmul 2 5 = 10"
  using fl_val_ge1 [of 3 "2 * 5" "5629499534213120"]
  by (simp add: fmul_def)

lemma b_W80: "fsub 68 10 = 58"
  using fl_val_ge1 [of 5 "68 - 10" "8162774324609024"]
  by (simp add: fsub_def)

lemma b_y80: "fdiv 58 40 = (6530219459687219 / 4503599627370496)"
  using fl_val_ge1 [of 0 "58 / 40" "6530219459687219"]
  by (simp add: fdiv_def)

lemma b_s80: "fadd (6530219459687219 / 4503599627370496) 1 = (2758454771764429 / 1125899906842624)"
  using fl_eval_ge1 [of 1 "(6530219459687219 / 4503599627370496) + 1"]
  by (simp add: fadd_def rne_def)

lemma b_H52: "fsub 52 12 = 40"
  using fl_val_ge1 [of 5 "52 - 12" "5629499534213120"]
  by (simp add: fsub_def)

lemma b_yv: "fdiv 40 40 = 1"
  using fl_val_ge1 [of 0 "40 / 40" "4503599627370496"]
  by (simp add: fdiv_def)

lemma b_sv: "fadd 1 1 = 2"
  using fl_val_ge1 [of 1 "1 + 1" "4503599627370496"]
  by (simp add: fadd_def)

lemma b_M2: "fsub 2 1 = 1"
  using fl_val_ge1 [of 0 "2 - 1" "4503599627370496"]
  by (simp add: fsub_def)

lemma b_negM2: "fmul (- 1) 1 = (- 1)"
  using fl_val_ge1 [of 0 "(- 1) * 1" "(- 4503599627370496)"]
  by (simp add: fmul_def)

lemma b_halfM2: "fdiv (- 1) 2 = (- (1 / 2))"
  using fl_val_lt1 [of "(- 1) / 2" 1 "(- 4503599627370496)"]
  by (simp add: fdiv_def)

lemma b_dx2: "fmul (- (1 / 2)) 40 = (- 20)"
  using fl_val_ge1 [of 4 "(- (1 / 2)) * 40" "(- 5629499534213120)"]
  by (simp add: fmul_def)

lemma b_i0: "fmul 0 40 = 0"
  by (simp add: fmul_def)

lemma b_i1: "fmul 1 40 = 40"
  using fl_val_ge1 [of 5 "1 * 40" "5629499534213120"]
  by (simp add: fmul_def)

lemma b_x0: "fadd 0 (- 20) = (- 20)"
  using fl_val_ge1 [of 4 "0 + (- 20)" "(- 5629499534213120)"]
  by (simp add: fadd_def)

lemma b_x1: "fadd 40 (- 20) = 20"
  using fl_val_ge1 [of 4 "40 + (- 20)" "5629499534213120"]
  by (simp add: fadd_def)

lemma b_dy: "fdiv (- 60) 2 = (- 30)"
  using fl_val_ge1 [of 4 "(- 60) / 2" "(- 8444249301319680)"]
  by (simp add: fdiv_def)

lemma b_w20: "fsub 20 12 = 8"
  using fl_val_ge1 [of 3 "20 - 12" "4503599627370496"]
  by (simp add: fsub_def)

lemma b_W20: "fsub 8 10 = (- 2)"
  using fl_val_ge1 [of 1 "8 - 10" "(- 4503599627370496)"]
  by (simp add: fsub_def)

lemma b_2r0: "fmul 2 0 = 0"
  by (simp add: fmul_def)

lemma b_wn: "fsub (5629499534213119 / 562949953421312) 0 = (5629499534213119 / 562949953421312)"
  using fl_val_ge1 [of 3 "(5629499534213119 / 562949953421312) - 0" "5629499534213119"]
  by (simp add: fsub_def)

lemma b_Wn: "fsub (5629499534213119 / 562949953421312) 10 = (- (1 / 562949953421312))"
  using fl_val_lt1 [of "(5629499534213119 / 562949953421312) - 10" 49 "(- 4503599627370496)"]
  by (simp add: fsub_def)

lemma b_yn: "fdiv (- (1 / 562949953421312)) 40 = (- (3602879701896397 / 81129638414606681695789005144064))"
  using fl_val_lt1 [of "(- (1 / 562949953421312)) / 40" 55 "(- 7205759403792794)"]
  by (simp add: fdiv_def)

lemma b_sn: "fadd (- (3602879701896397 / 81129638414606681695789005144064)) 1 = 1"
  using fl_val_lt1 [of "(- (3602879701896397 / 81129638414606681695789005144064)) + 1" 1 "9007199254740992"]
  by (simp add: fadd_def)

lemma b_M1: "fsub 1 1 = 0"
  by (simp add: fsub_def)

lemma b_negM1: "fmul (- 1) 0 = 0"
  by (simp add: fmul_def)

lemma b_halfM1: "fdiv 0 2 = 0"
  by (simp add: fdiv_def)

lemma b_thr: "fdiv (- (1 / 281474976710656)) 40 = (- (3602879701896397 / 40564819207303340847894502572032))"
  using fl_val_lt1 [of "(- (1 / 281474976710656)) / 40" 54 "(- 7205759403792794)"]
  by (simp add: fdiv_def)

lemma b_thr1: "fadd (- (3602879701896397 / 40564819207303340847894502572032)) 1 = (9007199254740991 / 9007199254740992)"
  using fl_val_lt1 [of "(- (3602879701896397 / 40564819207303340847894502572032)) + 1" 1 "9007199254740991"]
  by (simp add: fadd_def)

lemmas ebox = b_2r b_w2r b_2p b_W80 b_y80 b_s80 b_H52 b_yv b_sv b_M2 b_negM2 b_halfM2 b_dx2 b_i0 b_i1 b_x0 b_x1 b_dy b_w20 b_W20 b_2r0 b_wn b_Wn b_yn b_sn b_M1 b_negM1 b_halfM1 b_thr b_thr1

lemma place_clips_offsets:
  "\<exists>res'. place_clips k_all dx depth cells res = Some res' \<and>
     clip_offsets res' = clip_offsets res @
       concat (map (\<lambda>(i, j). [(fadd (fmul (real i) gw) dx, fdiv (- depth) 2, fmul (real j) gh),
                              (fadd (fmul (real i) gw) dx, fdiv (- depth) 2, fmul (real j) gh)]) cells)"
proof (induction cells arbitrary: res)
  case Nil
  show ?case by simp
next
  case (Cons c cells)
  obtain i j where c: "c = (i, j)" by (cases c)
  obtain cl cr where cl: "clips k_all (0 < j) = Some (cl, cr)"
    using clips_k_all by blast
  let ?v = "(fadd (fmul (real i) gw) dx, fdiv (- depth) 2, fmul (real j) gh)"
  let ?res2 = "Add (Add res (Translate cl ?v)) (Translate cr ?v)"
  from Cons.IH [of ?res2] obtain res' where r: "place_clips k_all dx depth cells ?res2 = Some res'"
    and o: "clip_offsets res' = clip_offsets ?res2 @
       concat (map (\<lambda>(i, j). [(fadd (fmul (real i) gw) dx, fdiv (- depth) 2, fmul (real j) gh),
                              (fadd (fmul (real i) gw) dx, fdiv (- depth) 2, fmul (real j) gh)]) cells)"
    by blast
  have "place_clips k_all dx depth (c # cells) res = Some res'"
    unfolding c using r
    by (simp add: cl m_translate_def m_add_def accepting_simps [OF accepting_k_all])
  with o c show ?case by simp
qed

lemma box_places:
  "\<exists>out res. box k_all height width depth radius wall bottom = (out, Some res) \<and>
     clip_offsets res =
       concat (map (\<lambda>(i, j). [(fadd (fmul (real i) gw) (box_dx width radius), fdiv (- depth) 2,
                                fmul (real j) gh),
                              (fadd (fmul (real i) gw) (box_dx width radius), fdiv (- depth) 2,
                                fmul (real j) gh)])
                   (clip_cells (box_N width radius) (box_NV height)))"
proof -
  obtain out a b where base: "base k_all height width depth radius wall bottom = (out, Some (Subtract a b))"
    using base_accepting [OF accepting_k_all] by blast
  from place_clips_offsets [of "box_dx width radius" depth
      "clip_cells (box_N width radius) (box_NV height)" "Subtract a b"]
  obtain res where r: "place_clips k_all (box_dx width radius) depth
        (clip_cells (box_N width radius) (box_NV height)) (Subtract a b) = Some res"
    and o: "clip_offsets res = clip_offsets (Subtract a b) @
       concat (map (\<lambda>(i, j). [(fadd (fmul (real i) gw) (box_dx width radius), fdiv (- depth) 2,
                                fmul (real j) gh),
                              (fadd (fmul (real i) gw) (box_dx width radius), fdiv (- depth) 2,
                                fmul (real j) gh)])
                   (clip_cells (box_N width radius) (box_NV height)))"
    by blast
  have "box k_all height width depth radius wall bottom = (out, Some res)"
    unfolding box_def base by (simp only: prod.case option.case r)
  moreover from o have "clip_offsets res =
       concat (map (\<lambda>(i, j). [(fadd (fmul (real i) gw) (box_dx width radius), fdiv (- depth) 2,
                                fmul (real j) gh),
                              (fadd (fmul (real i) gw) (box_dx width radius), fdiv (- depth) 2,
                                fmul (real j) gh)])
                   (clip_cells (box_N width radius) (box_NV height)))"
    by simp
  ultimately show ?thesis by blast
qed

lemma box_count_relation:
  assumes y: "\<bar>fdiv (box_W width radius) gw\<bar> < 2 ^ 52"
  shows "box_N width radius = \<lfloor>fdiv (box_W width radius) gw\<rfloor> + 1 \<or>
         (box_N width radius = \<lfloor>fdiv (box_W width radius) gw\<rfloor> + 2 \<and>
          fadd (fdiv (box_W width radius) gw) 1 = of_int (\<lfloor>fdiv (box_W width radius) gw\<rfloor> + 2))"
proof -
  define y where "y = fdiv (box_W width radius) gw"
  define f where "f = \<lfloor>y\<rfloor>"
  have yb: "\<bar>y\<bar> < 2 ^ 52" using y by (simp add: y_def)
  have N: "box_N width radius = \<lfloor>fl (y + 1)\<rfloor>"
    by (simp add: box_N_def fadd_def y_def)
  have fb: "- (2 ^ 52) \<le> f" "f < 2 ^ 52"
  proof -
    from yb have "- (2 ^ 52) \<le> y" "y < 2 ^ 52" by linarith+
    then show "- (2 ^ 52) \<le> f" "f < 2 ^ 52"
      unfolding f_def by (simp_all add: le_floor_iff floor_less_iff)
  qed
  have e1: "fl (of_int (f + 1)) = of_int (f + 1)"
    using fb by (intro fl_of_int) simp
  have e2: "fl (of_int (f + 2)) = of_int (f + 2)"
    using fb by (intro fl_of_int) simp
  have "of_int (f + 1) \<le> y + 1" unfolding f_def by simp
  from fl_mono [OF this] have lo: "of_int (f + 1) \<le> fl (y + 1)" unfolding e1 .
  have "y + 1 \<le> of_int (f + 2)" unfolding f_def by simp linarith
  from fl_mono [OF this] have hi: "fl (y + 1) \<le> of_int (f + 2)" unfolding e2 .
  from lo have l: "f + 1 \<le> \<lfloor>fl (y + 1)\<rfloor>" by (simp only: le_floor_iff)
  show ?thesis
  proof (cases "fl (y + 1) < of_int (f + 2)")
    case True
    then have "\<lfloor>fl (y + 1)\<rfloor> < f + 2" by (simp only: floor_less_iff)
    with l have "\<lfloor>fl (y + 1)\<rfloor> = f + 1" by linarith
    then show ?thesis unfolding N y_def [symmetric] f_def [symmetric] by simp
  next
    case False
    with hi have eq: "fl (y + 1) = of_int (f + 2)" by linarith
    then have "\<lfloor>fl (y + 1)\<rfloor> = f + 2" by (simp only: floor_of_int)
    with eq show ?thesis
      unfolding N y_def [symmetric] f_def [symmetric] fadd_def by simp
  qed
qed

lemma box_dx_exact:
  assumes "\<bar>box_N width radius\<bar> \<le> 2 ^ 40"
  shows "box_dx width radius = of_int (- 20 * (box_N width radius - 1))"
proof -
  define n where "n = box_N width radius"
  have nb: "\<bar>n\<bar> \<le> 2 ^ 40" using assms by (simp add: n_def)
  have b1: "\<bar>n - 1\<bar> < 2 ^ 53" and b2: "\<bar>- (n - 1)\<bar> < 2 ^ 53"
    and b3: "\<bar>- 20 * (n - 1)\<bar> < 2 ^ 53"
    using nb by simp_all
  have e1: "of_int n - (1::real) = of_int (n - 1)" by simp
  have M: "box_M width radius = of_int (n - 1)"
    unfolding box_M_def fsub_def n_def [symmetric] e1 by (rule fl_of_int [OF b1])
  have e2: "- 1 * (of_int (n - 1) :: real) = of_int (- (n - 1))" by simp
  have a: "fmul (- 1) (of_int (n - 1)) = of_int (- (n - 1))"
    unfolding fmul_def e2 by (rule fl_of_int [OF b2])
  have b: "fdiv (of_int (- (n - 1))) 2 = of_int (- (n - 1)) / 2"
    unfolding fdiv_def by (rule fl_half_int [OF b2])
  have e3: "of_int (- (n - 1)) / 2 * (40::real) = of_int (- 20 * (n - 1))" by simp
  have c: "fmul (of_int (- (n - 1)) / 2) gw = of_int (- 20 * (n - 1))"
    unfolding fmul_def gw_def e3 by (rule fl_of_int [OF b3])
  have "box_dx width radius = of_int (- 20 * (n - 1))"
    unfolding box_dx_def M a b c ..
  then show ?thesis unfolding n_def .
qed

lemma column_exact:
  assumes nb: "\<bar>box_N width radius\<bar> \<le> 2 ^ 40" and i: "int i < box_N width radius"
  shows "fadd (fmul (real i) gw) (box_dx width radius) =
           of_int (40 * int i - 20 * (box_N width radius - 1))"
proof -
  define n where "n = box_N width radius"
  have nb': "\<bar>n\<bar> \<le> 2 ^ 40" and i': "int i < n" using nb i by (simp_all add: n_def)
  have b1: "\<bar>40 * int i\<bar> < 2 ^ 53" and b2: "\<bar>40 * int i - 20 * (n - 1)\<bar> < 2 ^ 53"
    using nb' i' by simp_all
  have e1: "real i * (40::real) = of_int (40 * int i)" by simp
  have a: "fmul (real i) gw = of_int (40 * int i)"
    unfolding fmul_def gw_def e1 by (rule fl_of_int [OF b1])
  have e2: "of_int (40 * int i) + (of_int (- 20 * (n - 1)) :: real) = of_int (40 * int i - 20 * (n - 1))"
    by simp
  have b: "fadd (of_int (40 * int i)) (of_int (- 20 * (n - 1))) = of_int (40 * int i - 20 * (n - 1))"
    unfolding fadd_def e2 by (rule fl_of_int [OF b2])
  have dx: "box_dx width radius = of_int (- 20 * (n - 1))"
    unfolding n_def by (rule box_dx_exact [OF nb])
  have "fadd (fmul (real i) gw) (box_dx width radius) = of_int (40 * int i - 20 * (n - 1))"
    unfolding dx a b ..
  then show ?thesis unfolding n_def .
qed

lemma box_W_int:
  assumes w: "\<bar>w\<bar> \<le> 2 ^ 30" and r: "\<bar>r\<bar> \<le> 2 ^ 30"
  shows "box_W (of_int w) (of_int r) = of_int (w - 2 * r - 10)"
proof -
  have b1: "\<bar>2 * r\<bar> < 2 ^ 53" and b2: "\<bar>w - 2 * r\<bar> < 2 ^ 53"
    and b3: "\<bar>10 :: int\<bar> < 2 ^ 53" and b4: "\<bar>w - 2 * r - 10\<bar> < 2 ^ 53"
    using w r by simp_all
  have e1: "2 * (of_int r :: real) = of_int (2 * r)" by simp
  have a: "fmul 2 (of_int r) = of_int (2 * r)"
    unfolding fmul_def e1 by (rule fl_of_int [OF b1])
  have e2: "of_int w - (of_int (2 * r) :: real) = of_int (w - 2 * r)" by simp
  have b: "fsub (of_int w) (of_int (2 * r)) = of_int (w - 2 * r)"
    unfolding fsub_def e2 by (rule fl_of_int [OF b2])
  have e3: "2 * (5 :: real) = of_int 10" by simp
  have c: "fmul 2 padding = of_int 10"
    unfolding fmul_def padding_def e3 by (rule fl_of_int [OF b3])
  have e4: "of_int (w - 2 * r) - (of_int 10 :: real) = of_int (w - 2 * r - 10)" by simp
  have d: "fsub (of_int (w - 2 * r)) (of_int 10) = of_int (w - 2 * r - 10)"
    unfolding fsub_def e4 by (rule fl_of_int [OF b4])
  show ?thesis
    unfolding box_W_def a b c d ..
qed

lemma count_of_int:
  assumes W: "\<bar>W\<bar> \<le> 2 ^ 40"
  shows "\<lfloor>fadd (fdiv (of_int W) 40) 1\<rfloor> = W div 40 + 1"
proof -
  define n where "n = W div 40"
  have nb: "\<bar>n\<bar> \<le> 2 ^ 40" using W unfolding n_def by linarith
  have lo: "of_int n \<le> (of_int W :: real) / 40"
  proof -
    have "n * 40 \<le> W" unfolding n_def by simp
    then have "of_int (n * 40) \<le> (of_int W :: real)" by (simp only: of_int_le_iff)
    then show ?thesis by simp
  qed
  have hi: "(of_int W :: real) / 40 \<le> of_int (64 * n + 63) / 2 ^ 6"
  proof -
    have "W mod 40 < 40" by simp
    moreover have "W = W div 40 * 40 + W mod 40" by simp
    ultimately have "W \<le> n * 40 + 39" unfolding n_def by linarith
    then have "of_int W \<le> (of_int (n * 40 + 39) :: real)" by (simp only: of_int_le_iff)
    then show ?thesis by simp
  qed
  have b1: "\<bar>n\<bar> < 2 ^ 53" and b2: "\<bar>64 * n + 63\<bar> < 2 ^ 53"
    and b3: "\<bar>n + 1\<bar> < 2 ^ 53" and b4: "\<bar>64 * (n + 1) + 63\<bar> < 2 ^ 53"
    using nb by simp_all
  have ylo: "of_int n \<le> fdiv (of_int W) 40"
    using fl_mono [OF lo] unfolding fdiv_def fl_of_int [OF b1] .
  have yhi: "fdiv (of_int W) 40 \<le> of_int (64 * n + 63) / 2 ^ 6"
    using fl_mono [OF hi] unfolding fdiv_def fl_int_shift [OF b2] .
  have "of_int (n + 1) \<le> fdiv (of_int W) 40 + 1" using ylo by simp
  from fl_mono [OF this] have slo: "of_int (n + 1) \<le> fadd (fdiv (of_int W) 40) 1"
    unfolding fadd_def fl_of_int [OF b3] .
  have "fdiv (of_int W) 40 + 1 \<le> of_int (64 * (n + 1) + 63) / 2 ^ 6" using yhi by simp
  from fl_mono [OF this] have shi: "fadd (fdiv (of_int W) 40) 1 \<le> of_int (64 * (n + 1) + 63) / 2 ^ 6"
    unfolding fadd_def fl_int_shift [OF b4] .
  then have "fadd (fdiv (of_int W) 40) 1 < of_int (n + 1) + 1" by simp
  with slo have "\<lfloor>fadd (fdiv (of_int W) 40) 1\<rfloor> = n + 1"
    by (simp only: floor_eq_iff)
  then show ?thesis unfolding n_def .
qed

lemma box_N_int:
  assumes w: "\<bar>w\<bar> \<le> 2 ^ 30" and r: "\<bar>r\<bar> \<le> 2 ^ 30"
  shows "box_N (of_int w) (of_int r) = (w - 2 * r - 10) div 40 + 1"
proof -
  have "\<bar>w - 2 * r - 10\<bar> \<le> 2 ^ 40" using w r by simp
  from count_of_int [OF this] show ?thesis
    unfolding box_N_def box_W_int [OF w r] gw_def .
qed

lemma box_N_narrow:
  assumes "box_W width radius \<le> - (1 / 2 ^ 48)"
  shows "box_N width radius \<le> 0"
proof -
  from assms have "box_W width radius / 40 \<le> - (1 / 281474976710656) / 40" by simp
  from fl_mono [OF this]
  have "fdiv (box_W width radius) 40 \<le> - (3602879701896397 / 40564819207303340847894502572032)"
    unfolding fdiv_def [symmetric] b_thr .
  then have "fdiv (box_W width radius) 40 + 1 \<le>
      - (3602879701896397 / 40564819207303340847894502572032) + 1" by simp
  from fl_mono [OF this]
  have "fadd (fdiv (box_W width radius) 40) 1 \<le> 9007199254740991 / 9007199254740992"
    unfolding fadd_def [symmetric] b_thr1 .
  then have "fadd (fdiv (box_W width radius) 40) 1 < 1" by simp
  then have "\<lfloor>fadd (fdiv (box_W width radius) 40) 1\<rfloor> < 1" by (simp only: floor_less_iff of_int_1)
  then show ?thesis unfolding box_N_def gw_def by simp
qed

lemma box_no_cells:
  assumes "box_N width radius \<le> 0"
  shows "box k height width depth radius wall bottom = base k height width depth radius wall bottom"
proof -
  from assms have c: "clip_cells (box_N width radius) (box_NV height) = []"
    by (simp add: clip_cells_def)
  show ?thesis
    unfolding box_def c
    by (cases "base k height width depth radius wall bottom") (simp split: option.splits)
qed

lemma cells_concat:
  "concat (map f (concat (map (\<lambda>i. map (\<lambda>j. (i, j)) js) is))) =
   concat (map (\<lambda>i. concat (map (\<lambda>j. f (i, j)) js)) is)"
  by (induction "is") (simp_all add: comp_def)

lemma box_places_grid:
  "\<exists>out res. box k_all height width depth radius wall bottom = (out, Some res) \<and>
     clip_offsets res =
       concat (map (\<lambda>i. concat (map (\<lambda>j.
           [(fadd (fmul (real i) 40) (box_dx width radius), fdiv (- depth) 2, fmul (real j) 40),
            (fadd (fmul (real i) 40) (box_dx width radius), fdiv (- depth) 2, fmul (real j) 40)])
         [0 ..< nat (box_NV height)])) [0 ..< nat (box_N width radius)])"
  using box_places [of height width depth radius wall bottom]
  unfolding clip_cells_def cells_concat gw_def gh_def by simp

lemma box_N_80_6: "box_N 80 6 = 2"
  by (simp add: box_N_def box_W_def padding_def gw_def ebox)

lemma box_NV_52: "box_NV 52 = 2"
  by (simp add: box_NV_def box_H_def CLIP_HEIGHT_def gh_def ebox)

lemma box_dx_80_6: "box_dx 80 6 = - 20"
  by (simp add: box_dx_def box_M_def box_N_80_6 gw_def ebox)

lemma box_80_6_offsets:
  "\<exists>out res. box k_all 52 80 60 6 2 3 = (out, Some res) \<and>
     clip_offsets res =
       [(- 20, - 30, 0), (- 20, - 30, 0), (- 20, - 30, 40), (- 20, - 30, 40),
        (20, - 30, 0), (20, - 30, 0), (20, - 30, 40), (20, - 30, 40)]"
proof -
  have u: "[0 ..< nat 2] = [0, Suc 0]" by (simp add: eval_nat_numeral)
  from box_places_grid [of 52 80 60 6 2 3] show ?thesis
    unfolding box_N_80_6 box_NV_52 box_dx_80_6 u
    by (simp add: ebox)
qed

lemma column_symmetric:
  assumes nb: "\<bar>box_N width radius\<bar> \<le> 2 ^ 40" and i: "int i < box_N width radius"
  shows "fadd (fmul (real i) 40) (box_dx width radius) =
           - fadd (fmul (real (nat (box_N width radius) - 1 - i)) 40) (box_dx width radius)"
proof -
  define n where "n = box_N width radius"
  define i' where "i' = nat n - 1 - i"
  have i': "int i' = n - 1 - int i" using i unfolding i'_def n_def by simp
  then have lt: "int i' < box_N width radius" unfolding n_def by simp
  have "fadd (fmul (real i) gw) (box_dx width radius) =
        - fadd (fmul (real i') gw) (box_dx width radius)"
    unfolding column_exact [OF nb i] column_exact [OF nb lt] i' n_def by simp
  then show ?thesis unfolding i'_def n_def gw_def .
qed

lemma box_N_tiny: "box_N (10 - 1 / 2 ^ 49) 0 = 1"
  by (simp add: box_N_def box_W_def padding_def gw_def ebox)

lemma box_W_tiny: "box_W (10 - 1 / 2 ^ 49) 0 = - (1 / 2 ^ 49)"
  by (simp add: box_W_def padding_def ebox)

lemma box_dx_tiny: "box_dx (10 - 1 / 2 ^ 49) 0 = 0"
  unfolding box_dx_def box_M_def box_N_tiny by (simp add: gw_def ebox)

lemma box_tiny_offsets:
  "\<exists>out res. box k_all 52 (10 - 1 / 2 ^ 49) 60 0 2 3 = (out, Some res) \<and>
     clip_offsets res = [(0, - 30, 0), (0, - 30, 0), (0, - 30, 40), (0, - 30, 40)]"
proof -
  have u: "[0 ..< nat 2] = [0, Suc 0]" by (simp add: eval_nat_numeral)
  have z: "fadd 0 0 = 0" by (simp add: fadd_def)
  from box_places_grid [of 52 "10 - 1 / 2 ^ 49" 60 0 2 3] show ?thesis
    unfolding box_N_tiny box_NV_52 box_dx_tiny u
    by (simp add: ebox z)
qed

lemma level_exact:
  assumes "int j < 2 ^ 40"
  shows "fmul (real j) 40 = of_int (40 * int j)"
proof -
  have b: "\<bar>40 * int j\<bar> < 2 ^ 53" using assms by simp
  have e: "real j * 40 = of_int (40 * int j)" by simp
  show ?thesis unfolding fmul_def e by (rule fl_of_int [OF b])
qed

lemma box_places_exact:
  assumes N: "box_N width radius \<le> 2 ^ 40" and NV: "box_NV height \<le> 2 ^ 40"
  shows "\<exists>out res. box k_all height width depth radius wall bottom = (out, Some res) \<and>
     clip_offsets res =
       concat (map (\<lambda>i. concat (map (\<lambda>j.
           [(of_int (40 * int i - 20 * (box_N width radius - 1)), fdiv (- depth) 2,
             of_int (40 * int j)),
            (of_int (40 * int i - 20 * (box_N width radius - 1)), fdiv (- depth) 2,
             of_int (40 * int j))])
         [0 ..< nat (box_NV height)])) [0 ..< nat (box_N width radius)])"
proof -
  have x: "fadd (fmul (real i) 40) (box_dx width radius) =
        of_int (40 * int i - 20 * (box_N width radius - 1))"
    if "i \<in> set [0 ..< nat (box_N width radius)]" for i
  proof -
    from that have i: "int i < box_N width radius" by simp
    with N have "\<bar>box_N width radius\<bar> \<le> 2 ^ 40" by simp
    from column_exact [OF this i] show ?thesis unfolding gw_def .
  qed
  have z: "fmul (real j) 40 = of_int (40 * int j)"
    if "j \<in> set [0 ..< nat (box_NV height)]" for j
  proof -
    from that NV have "int j < 2 ^ 40" by simp
    then show ?thesis by (rule level_exact)
  qed
  have "map (\<lambda>i. concat (map (\<lambda>j.
           [(fadd (fmul (real i) 40) (box_dx width radius), fdiv (- depth) 2, fmul (real j) 40),
            (fadd (fmul (real i) 40) (box_dx width radius), fdiv (- depth) 2, fmul (real j) 40)])
         [0 ..< nat (box_NV height)])) [0 ..< nat (box_N width radius)] =
        map (\<lambda>i. concat (map (\<lambda>j.
           [(of_int (40 * int i - 20 * (box_N width radius - 1)), fdiv (- depth) 2,
             of_int (40 * int j)),
            (of_int (40 * int i - 20 * (box_N width radius - 1)), fdiv (- depth) 2,
             of_int (40 * int j))])
         [0 ..< nat (box_NV height)])) [0 ..< nat (box_N width radius)]"
  proof (rule map_cong [OF refl])
    fix i assume i: "i \<in> set [0 ..< nat (box_N width radius)]"
    have "map (\<lambda>j.
           [(fadd (fmul (real i) 40) (box_dx width radius), fdiv (- depth) 2, fmul (real j) 40),
            (fadd (fmul (real i) 40) (box_dx width radius), fdiv (- depth) 2, fmul (real j) 40)])
         [0 ..< nat (box_NV height)] =
        map (\<lambda>j.
           [(of_int (40 * int i - 20 * (box_N width radius - 1)), fdiv (- depth) 2,
             of_int (40 * int j)),
            (of_int (40 * int i - 20 * (box_N width radius - 1)), fdiv (- depth) 2,
             of_int (40 * int j))])
         [0 ..< nat (box_NV height)]"
      by (rule map_cong [OF refl]) (simp only: x [OF i] z)
    then show "concat (map (\<lambda>j.
           [(fadd (fmul (real i) 40) (box_dx width radius), fdiv (- depth) 2, fmul (real j) 40),
            (fadd (fmul (real i) 40) (box_dx width radius), fdiv (- depth) 2, fmul (real j) 40)])
         [0 ..< nat (box_NV height)]) =
        concat (map (\<lambda>j.
           [(of_int (40 * int i - 20 * (box_N width radius - 1)), fdiv (- depth) 2,
             of_int (40 * int j)),
            (of_int (40 * int i - 20 * (box_N width radius - 1)), fdiv (- depth) 2,
             of_int (40 * int j))])
         [0 ..< nat (box_NV height)])"
      by (rule arg_cong)
  qed
  with box_places_grid [of height width depth radius wall bottom] show ?thesis by simp
qed

subsection \<open>The claims about the shell, the vent holes and the clips\<close>

text \<open>
  C4. When the shell has been built and \<open>createVentHoles\<close> throws, \<open>base\<close> writes a
  warning to the console and returns the shell itself, the outer extrusion minus the
  inner cavity: the same solid, so with the same bounding box, as without vent holes.
  The exception does not leave \<open>base\<close>.
\<close>

theorem base_survives_vent_failure:
  assumes "base_shell k height width depth radius wall bottom = Some shell"
    and "createVentHoles k height width depth wall bottom radius = None"
  shows "base k height width depth radius wall bottom =
           ([ConsoleWarn ''Failed to create vent holes:''], Some shell)"
  using assms by (simp add: base_def)

theorem base_survives_vent_failure_witness:
  "createVentHoles k_no_rotate2 52 80 60 2 3 6 = None \<and>
   base_shell k_no_rotate2 52 80 60 6 2 3 \<noteq> None \<and>
   fst (base k_no_rotate2 52 80 60 6 2 3) = [ConsoleWarn ''Failed to create vent holes:''] \<and>
   snd (base k_no_rotate2 52 80 60 6 2 3) = base_shell k_no_rotate2 52 80 60 6 2 3"
proof -
  from shell_no_rotate2 obtain shell where sh: "base_shell k_no_rotate2 52 80 60 6 2 3 = Some shell"
    by blast
  from base_survives_vent_failure [OF sh vents_no_rotate2] sh vents_no_rotate2
  show ?thesis by simp
qed

text \<open>
  When no face has a hole (the side grids and the front grid are empty and the bottom
  cutout has no width or no depth), \<open>createVentHoles\<close>, if the kernel accepts its
  calls, returns the placeholder: \<open>bottomPrism\<close>, the hole profile extruded by
  \<open>bottom + 0.8\<close>, translated by \<open>-99999\<close> along \<open>z\<close>. For a bottom with
  \<open>bottom + 0.8 < 99999\<close> the placeholder ends below \<open>z = 0\<close>, where the shell begins.
\<close>

lemma placeholder_below_shell:
  assumes side: "positions (computeCenteredAxisPositions depth HOLE_SPAN_PLANAR EDGE_CLEARANCE MIN_GAP
                   (Some MAX_AXIS_COUNT_DEPTH)) = [] \<or>
                 positions (computeVerticalPositions height HOLE_SPAN_PLANAR EDGE_CLEARANCE MIN_GAP
                   (Some MAX_AXIS_COUNT_HEIGHT)) = []"
    and front: "positions (computeCenteredAxisPositions width HOLE_SPAN_PLANAR EDGE_CLEARANCE MIN_GAP
                   (Some MAX_AXIS_COUNT_WIDTH)) = [] \<or>
                 positions (computeVerticalPositions height HOLE_SPAN_PLANAR EDGE_CLEARANCE MIN_GAP
                   (Some MAX_AXIS_COUNT_HEIGHT)) = []"
    and bot: "max 0 (width - 2 * (wall + BOTTOM_MARGIN)) \<le> 0 \<or>
              max 0 (depth - 2 * (wall + BOTTOM_MARGIN)) \<le> 0"
    and cv: "createVentHoles k height width depth wall bottom radius = Some holes"
    and sh: "base_shell k height width depth radius wall bottom = Some shell"
    and small: "bottom + 0.8 < 99999"
  shows "holes = placeholder bottom \<and>
         z_range holes = Some (- 99999, bottom + 0.8 - 99999) \<and>
         bottom + 0.8 - 99999 < 0 \<and>
         z_range shell = Some (0, height)"
proof -
  have h: "holes = placeholder bottom"
    using side front bot cv by (rule vents_zero_value)
  from base_shell_Some [OF sh] have "z_range shell = Some (0, height)" by auto
  with h small show ?thesis by (simp add: z_range_placeholder)
qed

lemma placeholder_below_shell_example:
  "positions (computeCenteredAxisPositions 12 HOLE_SPAN_PLANAR EDGE_CLEARANCE MIN_GAP
      (Some MAX_AXIS_COUNT_DEPTH)) = [] \<and>
   positions (computeCenteredAxisPositions 12 HOLE_SPAN_PLANAR EDGE_CLEARANCE MIN_GAP
      (Some MAX_AXIS_COUNT_WIDTH)) = [] \<and>
   max 0 (12 - 2 * (1 + BOTTOM_MARGIN)) \<le> 0 \<and>
   (3 :: real) + 0.8 < 99999 \<and>
   createVentHoles k_all 52 12 12 1 3 0 = Some (placeholder 3) \<and>
   z_range (placeholder 3) = Some (- 99999, 3 + 0.8 - 99999) \<and>
   map_option z_range (base_shell k_all 52 12 12 0 1 3) = Some (Some (0, 52))"
proof -
  have ys: "positions (computeCenteredAxisPositions 12 HOLE_SPAN_PLANAR EDGE_CLEARANCE MIN_GAP
      (Some MAX_AXIS_COUNT_DEPTH)) = []"
    and xs: "positions (computeCenteredAxisPositions 12 HOLE_SPAN_PLANAR EDGE_CLEARANCE MIN_GAP
      (Some MAX_AXIS_COUNT_WIDTH)) = []"
    using narrow_12 by (simp_all add: centered_empty)
  have bot: "max 0 (12 - 2 * (1 + BOTTOM_MARGIN)) \<le> (0::real)"
    by (simp add: BOTTOM_MARGIN_def)
  have small: "(3 :: real) + 0.8 < 99999" by simp
  obtain holes where cv: "createVentHoles k_all 52 12 12 1 3 0 = Some holes"
    using createVentHoles_total [OF accepting_k_all] by blast
  obtain shell where sh: "base_shell k_all 52 12 12 0 1 3 = Some shell"
    using base_shell_total [OF accepting_k_all] by blast
  from placeholder_below_shell [OF disjI1 [OF ys] disjI1 [OF xs] disjI1 [OF bot] cv sh small]
  have h: "holes = placeholder 3" and z: "z_range shell = Some (0, 52)"
    by blast+
  from ys xs bot small cv sh h z show ?thesis
    by (simp add: z_range_placeholder)
qed

text \<open>
  C5. The claim fails, and the code does not do what its comment says (\<open>a very small
  prism outside the model bounds\<close>): the placeholder is \<open>bottomPrism\<close>, whose height
  is \<open>bottom + 0.8\<close>, at the fixed offset \<open>-99999\<close>. With \<open>height = 200000\<close>,
  \<open>width = depth = 12\<close>, \<open>wall = 1\<close>, \<open>bottom = 100000\<close> and \<open>radius = 0\<close> no face has a
  hole; the placeholder runs from \<open>z = -99999\<close> to \<open>z = 1.8\<close>, the shell from \<open>z = 0\<close>
  to \<open>z = 200000\<close>, and \<open>base\<close> subtracts the placeholder from the shell: it reaches
  into the floor of the shell.
\<close>

theorem placeholder_reaches_into_shell:
  "positions (computeCenteredAxisPositions 12 HOLE_SPAN_PLANAR EDGE_CLEARANCE MIN_GAP
      (Some MAX_AXIS_COUNT_DEPTH)) = [] \<and>
   positions (computeCenteredAxisPositions 12 HOLE_SPAN_PLANAR EDGE_CLEARANCE MIN_GAP
      (Some MAX_AXIS_COUNT_WIDTH)) = [] \<and>
   max 0 (12 - 2 * (1 + BOTTOM_MARGIN)) \<le> 0 \<and>
   createVentHoles k_all 200000 12 12 1 100000 0 = Some (placeholder 100000) \<and>
   z_range (placeholder 100000) = Some (- 99999, 1.8) \<and>
   (0 :: real) < 1.8 \<and>
   (\<exists>shell. base_shell k_all 200000 12 12 0 1 100000 = Some shell \<and>
      z_range shell = Some (0, 200000) \<and>
      snd (base k_all 200000 12 12 0 1 100000) = Some (Subtract shell (placeholder 100000)))"
proof -
  have ys: "positions (computeCenteredAxisPositions 12 HOLE_SPAN_PLANAR EDGE_CLEARANCE MIN_GAP
      (Some MAX_AXIS_COUNT_DEPTH)) = []"
    and xs: "positions (computeCenteredAxisPositions 12 HOLE_SPAN_PLANAR EDGE_CLEARANCE MIN_GAP
      (Some MAX_AXIS_COUNT_WIDTH)) = []"
    using narrow_12 by (simp_all add: centered_empty)
  have bot: "max 0 (12 - 2 * (1 + BOTTOM_MARGIN)) \<le> (0::real)"
    by (simp add: BOTTOM_MARGIN_def)
  obtain holes where cv: "createVentHoles k_all 200000 12 12 1 100000 0 = Some holes"
    using createVentHoles_total [OF accepting_k_all] by blast
  obtain shell where sh: "base_shell k_all 200000 12 12 0 1 100000 = Some shell"
    using base_shell_total [OF accepting_k_all] by blast
  have h: "holes = placeholder 100000"
    using disjI1 [OF ys] disjI1 [OF xs] disjI1 [OF bot] cv by (rule vents_zero_value)
  from base_shell_Some [OF sh] have zs: "z_range shell = Some (0, 200000)" by auto
  have b: "snd (base k_all 200000 12 12 0 1 100000) = Some (Subtract shell (placeholder 100000))"
    using cv h by (simp add: base_def sh m_subtract_def accepting_simps [OF accepting_k_all])
  from sh zs b have e: "\<exists>shell. base_shell k_all 200000 12 12 0 1 100000 = Some shell \<and>
      z_range shell = Some (0, 200000) \<and>
      snd (base k_all 200000 12 12 0 1 100000) = Some (Subtract shell (placeholder 100000))"
    by blast
  have z: "z_range (placeholder 100000) = Some (- 99999, 1.8)"
    by (simp add: z_range_placeholder)
  from ys xs bot cv h z e show ?thesis by simp
qed

text \<open>
  C6. For a positive depth, every hole of the union that \<open>createVentHoles\<close> returns is
  a wall prism translated to the left face (\<open>x = -width/2 - 1\<close>), to the right face
  (\<open>x = width/2 + 1\<close>) or to the front face (\<open>y = depth/2 + 1\<close>), or the untranslated
  bottom cutout, or the placeholder; on the left and right faces the footprint of a hole,
  half the planar span on each side of its center, keeps the edge clearance from the back
  and front edges; and no part is translated to the back wall \<open>y = -depth/2\<close> or behind
  it.
\<close>

theorem back_face_never_perforated:
  assumes d: "0 < depth"
    and cv: "createVentHoles k height width depth wall bottom radius = Some holes"
    and p: "p \<in> set (union_parts holes)"
  shows "((\<exists>y z. p = Translate (Rotate (Extrude hole2D_value (wall + 3)) (0, 90, 0)) (- width / 2 - 1, y, z)
            \<and> - depth / 2 + EDGE_CLEARANCE + HOLE_SPAN_PLANAR / 2 \<le> y
            \<and> y \<le> depth / 2 - EDGE_CLEARANCE - HOLE_SPAN_PLANAR / 2)
       \<or> (\<exists>y z. p = Translate (Rotate (Extrude hole2D_value (wall + 3)) (0, - 90, 0)) (width / 2 + 1, y, z)
            \<and> - depth / 2 + EDGE_CLEARANCE + HOLE_SPAN_PLANAR / 2 \<le> y
            \<and> y \<le> depth / 2 - EDGE_CLEARANCE - HOLE_SPAN_PLANAR / 2)
       \<or> (\<exists>x z. p = Translate (Rotate (Extrude hole2D_value (wall + 3)) (90, 0, 0)) (x, depth / 2 + 1, z)
            \<and> - width / 2 + EDGE_CLEARANCE + HOLE_SPAN_PLANAR / 2 \<le> x
            \<and> x \<le> width / 2 - EDGE_CLEARANCE - HOLE_SPAN_PLANAR / 2)
       \<or> (\<exists>c r. p = Subtract (Extrude c (bottom + 0.8)) (Extrude r (bottom + 0.8)))
       \<or> p = placeholder bottom)
     \<and> (\<forall>m x y z. p = Translate m (x, y, z) \<longrightarrow> - depth / 2 < y)"
proof -
  note v = vents_value [OF cv p]
  have "- depth / 2 < y" if "p = Translate m (x, y, z)" for m x y z
    using v that d HOLE_SPAN_PLANAR_pos by (auto simp: EDGE_CLEARANCE_def placeholder_def)
  with v show ?thesis by blast
qed

theorem back_face_never_perforated_witness:
  "(0 :: real) < 60 \<and>
   (\<exists>holes. createVentHoles k_all 52 80 60 2 3 6 = Some holes \<and>
      hd (union_parts holes) \<in> set (union_parts holes) \<and>
      (\<forall>m x y z. hd (union_parts holes) = Translate m (x, y, z) \<longrightarrow> - 60 / 2 < y))"
proof -
  obtain holes where cv: "createVentHoles k_all 52 80 60 2 3 6 = Some holes"
    using createVentHoles_total [OF accepting_k_all] by blast
  have p: "hd (union_parts holes) \<in> set (union_parts holes)"
    using union_parts_nonempty by simp
  have d: "(0 :: real) < 60" by simp
  from back_face_never_perforated [OF d cv p] cv p d show ?thesis by blast
qed

text \<open>
  C7, as amended. \<open>box\<close> computes the number of clip columns as
  \<open>\<lfloor>(width - 2 radius - 2 padding) / 40 + 1\<rfloor>\<close> with padding 5, each operation rounded
  to binary64 (and the number of levels as \<open>\<lfloor>(height - 12) / 40 + 1\<rfloor>\<close>). For a quotient
  below \<open>2^52\<close> in magnitude the count is the floor of the quotient plus 1, or plus 2
  when the quotient plus 1 rounds up to that integer; for an integer width and radius
  (up to \<open>2^30\<close> in magnitude) it is exactly
  \<open>\<lfloor>(width - 2 radius - 2 padding) / 40\<rfloor> + 1\<close>. For counts up to \<open>2^40\<close> and a kernel
  that accepts every call, \<open>box\<close> returns, and the clips it adds are, for each column
  \<open>i\<close> below the count \<open>N\<close> and each level \<open>j\<close> below the number of levels, in this
  order, one pair at \<open>x = 40 i - 20 (N - 1)\<close>, \<open>y = -depth/2\<close> (rounded), \<open>z = 40 j\<close>.
  The \<open>x\<close> the code computes, \<open>i * 40 + dx\<close>, is exactly \<open>40 i - 20 (N - 1)\<close> and the
  negative of that of column \<open>N - 1 - i\<close>: the columns are centered on the box. For
  width 80 and radius 6 there are 2 columns, at \<open>x = -20\<close> and \<open>x = 20\<close> (with height
  52 and depth 60: two levels, so four pairs of clips).
\<close>

theorem clip_columns:
  "box_N width radius =
     \<lfloor>fadd (fdiv (fsub (fsub width (fmul 2 radius)) (fmul 2 5)) 40) 1\<rfloor> \<and>
   box_NV height = \<lfloor>fadd (fdiv (fsub height 12) 40) 1\<rfloor> \<and>
   (\<bar>fdiv (box_W width radius) 40\<bar> < 2 ^ 52 \<longrightarrow>
      box_N width radius = \<lfloor>fdiv (box_W width radius) 40\<rfloor> + 1 \<or>
      box_N width radius = \<lfloor>fdiv (box_W width radius) 40\<rfloor> + 2 \<and>
        fadd (fdiv (box_W width radius) 40) 1 = of_int (\<lfloor>fdiv (box_W width radius) 40\<rfloor> + 2)) \<and>
   (\<bar>w\<bar> \<le> 2 ^ 30 \<and> \<bar>r\<bar> \<le> 2 ^ 30 \<longrightarrow>
      box_N (of_int w) (of_int r) = \<lfloor>(of_int w - 2 * of_int r - 2 * 5 :: real) / 40\<rfloor> + 1) \<and>
   (box_N width radius \<le> 2 ^ 40 \<and> box_NV height \<le> 2 ^ 40 \<longrightarrow>
      (\<exists>out res. box k_all height width depth radius wall bottom = (out, Some res) \<and>
         clip_offsets res =
           concat (map (\<lambda>i. concat (map (\<lambda>j.
               [(of_int (40 * int i - 20 * (box_N width radius - 1)), fdiv (- depth) 2,
                 of_int (40 * int j)),
                (of_int (40 * int i - 20 * (box_N width radius - 1)), fdiv (- depth) 2,
                 of_int (40 * int j))])
             [0 ..< nat (box_NV height)])) [0 ..< nat (box_N width radius)]))) \<and>
   (box_N width radius \<le> 2 ^ 40 \<longrightarrow>
      (\<forall>i. int i < box_N width radius \<longrightarrow>
         fadd (fmul (real i) 40) (box_dx width radius) =
           of_int (40 * int i - 20 * (box_N width radius - 1)) \<and>
         fadd (fmul (real i) 40) (box_dx width radius) =
           - fadd (fmul (real (nat (box_N width radius) - 1 - i)) 40) (box_dx width radius))) \<and>
   box_N 80 6 = 2 \<and>
   (\<exists>out res. box k_all 52 80 60 6 2 3 = (out, Some res) \<and>
      clip_offsets res =
        [(- 20, - 30, 0), (- 20, - 30, 0), (- 20, - 30, 40), (- 20, - 30, 40),
         (20, - 30, 0), (20, - 30, 0), (20, - 30, 40), (20, - 30, 40)])"
proof -
  have count: "box_N width radius =
     \<lfloor>fadd (fdiv (fsub (fsub width (fmul 2 radius)) (fmul 2 5)) 40) 1\<rfloor>"
    by (simp add: box_N_def box_W_def padding_def gw_def)
  have levels: "box_NV height = \<lfloor>fadd (fdiv (fsub height 12) 40) 1\<rfloor>"
    by (simp add: box_NV_def box_H_def CLIP_HEIGHT_def gh_def)
  have rel: "\<bar>fdiv (box_W width radius) 40\<bar> < 2 ^ 52 \<longrightarrow>
      box_N width radius = \<lfloor>fdiv (box_W width radius) 40\<rfloor> + 1 \<or>
      box_N width radius = \<lfloor>fdiv (box_W width radius) 40\<rfloor> + 2 \<and>
        fadd (fdiv (box_W width radius) 40) 1 = of_int (\<lfloor>fdiv (box_W width radius) 40\<rfloor> + 2)"
    using box_count_relation [of width radius] unfolding gw_def by blast
  have ints: "\<bar>w\<bar> \<le> 2 ^ 30 \<and> \<bar>r\<bar> \<le> 2 ^ 30 \<longrightarrow>
      box_N (of_int w) (of_int r) = \<lfloor>(of_int w - 2 * of_int r - 2 * 5 :: real) / 40\<rfloor> + 1"
  proof
    assume b: "\<bar>w\<bar> \<le> 2 ^ 30 \<and> \<bar>r\<bar> \<le> 2 ^ 30"
    have "(of_int w - 2 * of_int r - 2 * 5 :: real) / 40 = of_int (w - 2 * r - 10) / of_int 40"
      by simp
    also have "\<lfloor>\<dots>\<rfloor> = (w - 2 * r - 10) div 40"
      by (rule floor_divide_of_int_eq)
    finally show "box_N (of_int w) (of_int r) = \<lfloor>(of_int w - 2 * of_int r - 2 * 5 :: real) / 40\<rfloor> + 1"
      using box_N_int [of w r] b by simp
  qed
  have grid: "box_N width radius \<le> 2 ^ 40 \<and> box_NV height \<le> 2 ^ 40 \<longrightarrow>
      (\<exists>out res. box k_all height width depth radius wall bottom = (out, Some res) \<and>
         clip_offsets res =
           concat (map (\<lambda>i. concat (map (\<lambda>j.
               [(of_int (40 * int i - 20 * (box_N width radius - 1)), fdiv (- depth) 2,
                 of_int (40 * int j)),
                (of_int (40 * int i - 20 * (box_N width radius - 1)), fdiv (- depth) 2,
                 of_int (40 * int j))])
             [0 ..< nat (box_NV height)])) [0 ..< nat (box_N width radius)]))"
    using box_places_exact [of width radius height depth wall bottom] by blast
  have cols: "box_N width radius \<le> 2 ^ 40 \<longrightarrow>
      (\<forall>i. int i < box_N width radius \<longrightarrow>
         fadd (fmul (real i) 40) (box_dx width radius) =
           of_int (40 * int i - 20 * (box_N width radius - 1)) \<and>
         fadd (fmul (real i) 40) (box_dx width radius) =
           - fadd (fmul (real (nat (box_N width radius) - 1 - i)) 40) (box_dx width radius))"
  proof (intro impI allI)
    fix i assume N: "box_N width radius \<le> 2 ^ 40" and i: "int i < box_N width radius"
    then have nb: "\<bar>box_N width radius\<bar> \<le> 2 ^ 40" by simp
    from column_exact [OF nb i, unfolded gw_def] column_symmetric [OF nb i]
    show "fadd (fmul (real i) 40) (box_dx width radius) =
           of_int (40 * int i - 20 * (box_N width radius - 1)) \<and>
         fadd (fmul (real i) 40) (box_dx width radius) =
           - fadd (fmul (real (nat (box_N width radius) - 1 - i)) 40) (box_dx width radius)"
      by (rule conjI)
  qed
  from count levels rel ints grid cols box_N_80_6 box_80_6_offsets
  show ?thesis by (intro conjI)
qed

theorem clip_columns_witness:
  "(\<bar>fdiv (box_W 80 6) 40\<bar> < 2 ^ 52 \<and> \<bar>80 :: int\<bar> \<le> 2 ^ 30 \<and> \<bar>6 :: int\<bar> \<le> 2 ^ 30 \<and>
    box_N 80 6 \<le> 2 ^ 40 \<and> box_NV 52 \<le> 2 ^ 40 \<and> int 1 < box_N 80 6) \<and>
   (box_N 80 6 = \<lfloor>fdiv (box_W 80 6) 40\<rfloor> + 1 \<or>
    box_N 80 6 = \<lfloor>fdiv (box_W 80 6) 40\<rfloor> + 2 \<and>
      fadd (fdiv (box_W 80 6) 40) 1 = of_int (\<lfloor>fdiv (box_W 80 6) 40\<rfloor> + 2)) \<and>
   box_N (of_int 80) (of_int 6) = \<lfloor>(of_int 80 - 2 * of_int 6 - 2 * 5 :: real) / 40\<rfloor> + 1 \<and>
   (\<exists>out res. box k_all 52 80 60 6 2 3 = (out, Some res) \<and>
      clip_offsets res =
        concat (map (\<lambda>i. concat (map (\<lambda>j.
            [(of_int (40 * int i - 20 * (box_N 80 6 - 1)), fdiv (- 60) 2, of_int (40 * int j)),
             (of_int (40 * int i - 20 * (box_N 80 6 - 1)), fdiv (- 60) 2, of_int (40 * int j))])
          [0 ..< nat (box_NV 52)])) [0 ..< nat (box_N 80 6)])) \<and>
   fadd (fmul (real 1) 40) (box_dx 80 6) = of_int (40 * int 1 - 20 * (box_N 80 6 - 1)) \<and>
   fadd (fmul (real 1) 40) (box_dx 80 6) =
     - fadd (fmul (real (nat (box_N 80 6) - 1 - 1)) 40) (box_dx 80 6)"
proof -
  have W: "box_W 80 6 = 58"
    by (simp add: box_W_def padding_def ebox)
  have h1: "\<bar>fdiv (box_W 80 6) 40\<bar> < 2 ^ 52"
    unfolding W by (simp add: ebox)
  have h2: "\<bar>80 :: int\<bar> \<le> 2 ^ 30 \<and> \<bar>6 :: int\<bar> \<le> 2 ^ 30" by simp
  have h3: "box_N 80 6 \<le> 2 ^ 40" by (simp add: box_N_80_6)
  have h4: "box_NV 52 \<le> 2 ^ 40" by (simp add: box_NV_52)
  have h5: "int 1 < box_N 80 6" by (simp add: box_N_80_6)
  note t = clip_columns [of 80 6 52 80 6 60 2 3]
  from t h1 have c1: "box_N 80 6 = \<lfloor>fdiv (box_W 80 6) 40\<rfloor> + 1 \<or>
    box_N 80 6 = \<lfloor>fdiv (box_W 80 6) 40\<rfloor> + 2 \<and>
      fadd (fdiv (box_W 80 6) 40) 1 = of_int (\<lfloor>fdiv (box_W 80 6) 40\<rfloor> + 2)"
    by blast
  from t h2 have c2: "box_N (of_int 80) (of_int 6) =
      \<lfloor>(of_int 80 - 2 * of_int 6 - 2 * 5 :: real) / 40\<rfloor> + 1"
    by blast
  from t h3 h4 have c3: "\<exists>out res. box k_all 52 80 60 6 2 3 = (out, Some res) \<and>
      clip_offsets res =
        concat (map (\<lambda>i. concat (map (\<lambda>j.
            [(of_int (40 * int i - 20 * (box_N 80 6 - 1)), fdiv (- 60) 2, of_int (40 * int j)),
             (of_int (40 * int i - 20 * (box_N 80 6 - 1)), fdiv (- 60) 2, of_int (40 * int j))])
          [0 ..< nat (box_NV 52)])) [0 ..< nat (box_N 80 6)])"
    by blast
  from t h3 h5 have c4: "fadd (fmul (real 1) 40) (box_dx 80 6) =
        of_int (40 * int 1 - 20 * (box_N 80 6 - 1)) \<and>
      fadd (fmul (real 1) 40) (box_dx 80 6) =
        - fadd (fmul (real (nat (box_N 80 6) - 1 - 1)) 40) (box_dx 80 6)"
    by blast
  from h1 h2 h3 h4 h5 c1 c2 c3 c4 show ?thesis by blast
qed

text \<open>
  C7 as stated, with the count \<open>\<lfloor>(width - 2 radius - 2 padding) / 40\<rfloor> + 1\<close>, fails in
  binary64 at the width \<open>10 - 2^-49\<close> and the radius 0: the working width is \<open>-2^-49\<close>,
  the quotient plus 1 rounds to 1 and the count of the code is 1, while the floor of
  the quotient plus 1 is 0, in binary64 and over the reals.
\<close>

theorem clip_count_rounding_counterexample:
  "box_N (10 - 1 / 2 ^ 49) 0 = 1 \<and>
   \<lfloor>fdiv (fsub (fsub (10 - 1 / 2 ^ 49) (fmul 2 0)) (fmul 2 5)) 40\<rfloor> + 1 = 0 \<and>
   \<lfloor>((10 - 1 / 2 ^ 49) - 2 * 0 - 2 * 5 :: real) / 40\<rfloor> + 1 = 0"
proof -
  have a: "\<lfloor>fdiv (fsub (fsub (10 - 1 / 2 ^ 49) (fmul 2 0)) (fmul 2 5)) 40\<rfloor> + 1 = 0"
    by (simp add: ebox)
  have b: "\<lfloor>((10 - 1 / 2 ^ 49) - 2 * 0 - 2 * 5 :: real) / 40\<rfloor> + 1 = 0"
    by simp
  from box_N_tiny a b show ?thesis by (intro conjI)
qed

text \<open>
  C10, as amended. When the working width that \<open>box\<close> computes is at most \<open>-2^-48\<close>,
  the number of clip columns is at most 0, the loops visit no cell and \<open>box\<close> returns
  what \<open>base\<close> returns, whatever the kernel. This is so for every integer width and
  radius (up to \<open>2^30\<close> in magnitude) with \<open>width < 2 radius + 10\<close>, whose working
  width is at most \<open>-1\<close>.
\<close>

theorem box_too_narrow_no_clips:
  "(box_W width radius \<le> - (1 / 2 ^ 48) \<longrightarrow>
      box_N width radius \<le> 0 \<and>
      clip_cells (box_N width radius) (box_NV height) = [] \<and>
      box k height width depth radius wall bottom = base k height width depth radius wall bottom) \<and>
   (\<bar>w\<bar> \<le> 2 ^ 30 \<and> \<bar>r\<bar> \<le> 2 ^ 30 \<and> w < 2 * r + 10 \<longrightarrow>
      box_N (of_int w) (of_int r) \<le> 0 \<and>
      clip_cells (box_N (of_int w) (of_int r)) (box_NV height) = [] \<and>
      box k height (of_int w) depth (of_int r) wall bottom =
        base k height (of_int w) depth (of_int r) wall bottom)"
proof (intro conjI impI)
  assume "box_W width radius \<le> - (1 / 2 ^ 48)"
  then have n: "box_N width radius \<le> 0" by (rule box_N_narrow)
  then show "box_N width radius \<le> 0" .
  from n show "clip_cells (box_N width radius) (box_NV height) = []"
    by (simp add: clip_cells_def)
  from n show "box k height width depth radius wall bottom =
      base k height width depth radius wall bottom"
    by (rule box_no_cells)
next
  assume a: "\<bar>w\<bar> \<le> 2 ^ 30 \<and> \<bar>r\<bar> \<le> 2 ^ 30 \<and> w < 2 * r + 10"
  then have "(w - 2 * r - 10) div 40 < 0"
    by (simp add: div_neg_pos_less0)
  with a have n: "box_N (of_int w) (of_int r) \<le> 0"
    by (simp add: box_N_int)
  then show "box_N (of_int w) (of_int r) \<le> 0" .
  from n show "clip_cells (box_N (of_int w) (of_int r)) (box_NV height) = []"
    by (simp add: clip_cells_def)
  from n show "box k height (of_int w) depth (of_int r) wall bottom =
      base k height (of_int w) depth (of_int r) wall bottom"
    by (rule box_no_cells)
qed

theorem box_too_narrow_no_clips_witness:
  "(box_W 20 6 \<le> - (1 / 2 ^ 48) \<and> \<bar>20 :: int\<bar> \<le> 2 ^ 30 \<and> \<bar>6 :: int\<bar> \<le> 2 ^ 30 \<and>
    (20 :: int) < 2 * 6 + 10) \<and>
   box_N 20 6 \<le> 0 \<and>
   clip_cells (box_N 20 6) (box_NV 52) = [] \<and>
   box k_all 52 20 60 6 2 3 = base k_all 52 20 60 6 2 3 \<and>
   box k_all 52 (of_int 20) 60 (of_int 6) 2 3 = base k_all 52 (of_int 20) 60 (of_int 6) 2 3"
proof -
  have h1: "box_W 20 6 \<le> - (1 / 2 ^ 48)"
    by (simp add: box_W_def padding_def ebox)
  have h2: "\<bar>20 :: int\<bar> \<le> 2 ^ 30 \<and> \<bar>6 :: int\<bar> \<le> 2 ^ 30 \<and> (20 :: int) < 2 * 6 + 10"
    by simp
  note t = box_too_narrow_no_clips [of 20 6 52 k_all 60 2 3 20 6]
  from t h1 have c1: "box_N 20 6 \<le> 0 \<and> clip_cells (box_N 20 6) (box_NV 52) = [] \<and>
      box k_all 52 20 60 6 2 3 = base k_all 52 20 60 6 2 3"
    by blast
  from t h2 have c2: "box k_all 52 (of_int 20) 60 (of_int 6) 2 3 =
      base k_all 52 (of_int 20) 60 (of_int 6) 2 3"
    by blast
  from h1 h2 c1 c2 show ?thesis by blast
qed

text \<open>
  C10 as stated, for every width below \<open>2 radius + 10\<close>, fails in binary64 at the width
  \<open>10 - 2^-49\<close> and the radius 0: the working width is \<open>-2^-49\<close>, negative, but the
  quotient plus 1 rounds to 1, the count is 1, and \<open>box\<close> (height 52, depth 60, a
  kernel that accepts every call) adds two pairs of clips at \<open>x = 0\<close> to the result of
  \<open>base\<close>.
\<close>

theorem box_narrow_rounding_counterexample:
  "(10 - 1 / 2 ^ 49 :: real) < 2 * 0 + 10 \<and>
   box_W (10 - 1 / 2 ^ 49) 0 = - (1 / 2 ^ 49) \<and>
   box_N (10 - 1 / 2 ^ 49) 0 = 1 \<and>
   (\<exists>out res. box k_all 52 (10 - 1 / 2 ^ 49) 60 0 2 3 = (out, Some res) \<and>
      clip_offsets res = [(0, - 30, 0), (0, - 30, 0), (0, - 30, 40), (0, - 30, 40)]) \<and>
   box k_all 52 (10 - 1 / 2 ^ 49) 60 0 2 3 \<noteq> base k_all 52 (10 - 1 / 2 ^ 49) 60 0 2 3"
proof -
  have lt: "(10 - 1 / 2 ^ 49 :: real) < 2 * 0 + 10" by simp
  obtain out res where b: "box k_all 52 (10 - 1 / 2 ^ 49) 60 0 2 3 = (out, Some res)"
    and o: "clip_offsets res = [(0, - 30, 0), (0, - 30, 0), (0, - 30, 40), (0, - 30, 40)]"
    using box_tiny_offsets by blast
  obtain out' a c where s: "base k_all 52 (10 - 1 / 2 ^ 49) 60 0 2 3 = (out', Some (Subtract a c))"
    using base_accepting [OF accepting_k_all] by blast
  have "res \<noteq> Subtract a c" using o by auto
  then have ne: "box k_all 52 (10 - 1 / 2 ^ 49) 60 0 2 3 \<noteq> base k_all 52 (10 - 1 / 2 ^ 49) 60 0 2 3"
    unfolding b s by simp
  from lt box_W_tiny box_N_tiny box_tiny_offsets ne show ?thesis by (intro conjI)
qed

section \<open>Properties of the kernel singleton\<close>

text \<open>
  C8. Two callers of \<open>ManifoldModule.get\<close>, the second starting before the \<open>init\<close> of
  the first has resolved: both find the static field undefined and both call \<open>init\<close>
  and \<open>setup\<close>. Resumed in turn they both return the second instance; when the first
  finishes before the second is resumed they return different instances. A second
  caller that starts after the first has assigned the field does not call \<open>init\<close>.
\<close>

theorem get_initializes_twice:
  "init_calls (run_schedule [0, 1, 0, 1, 0, 1] (fresh_module 2)) = 2 \<and>
   setup_calls (run_schedule [0, 1, 0, 1, 0, 1] (fresh_module 2)) = 2 \<and>
   callers (run_schedule [0, 1, 0, 1, 0, 1] (fresh_module 2)) = [Returned 2, Returned 2] \<and>
   callers (run_schedule [0, 1, 0, 0, 1, 1] (fresh_module 2)) = [Returned 1, Returned 2] \<and>
   init_calls (run_schedule [0, 0, 0, 1] (fresh_module 2)) = 1"
  by (simp add: run_schedule_def fresh_module_def get_step_def eval_nat_numeral)

end
